theory Spec2Isabelle
  imports Main "HOL-Library.Word"
begin

section \<open>The confidential-compute substrate\<close>

text \<open>
  The contract \<^verbatim>\<open>VeiledPredictionMarket.sol\<close> consumes the FHE library as an external
  capability.  A ciphertext is an opaque handle; the model pairs every handle with the
  plaintext it stands for (its plaintext-equivalent value), which no operation of the
  contract can inspect.  The substrate itself is a counter for fresh handles and the
  chronological log of every call made into it; the access-control relation is read off the
  log, since a grant is never revoked.

  A handle is the zero handle of a storage slot that was never assigned (\<open>Uninit\<close>), the
  result of an operation of the substrate (\<open>Computed\<close>), or the handle of an external input
  (\<open>Input\<close>).  An input proof is either rejected by the substrate or attests the plaintext
  behind the input handle.  A grant names the contract itself (\<open>This\<close>, the target of
  \<^verbatim>\<open>FHE.allowThis\<close>) or an account.
\<close>

type_synonym address = "160 word"

datatype handle = Uninit | Computed nat | Input nat

datatype 'a enc = Enc (hid: handle) (plain: 'a)

type_synonym ebool = "bool enc"
type_synonym euint8 = "8 word enc"
type_synonym euint32 = "32 word enc"
type_synonym euint64 = "64 word enc"
type_synonym externalEuint8 = nat

datatype inputProof = Rejected | Attests "8 word"

datatype principal = This | Account address

datatype fhe_op =
    OpTrivial nat nat handle
  | OpVerify handle
  | OpAdd handle handle handle
  | OpEq handle handle handle
  | OpSelect handle handle handle handle
  | OpAllow handle principal

record fhe =
  nextHandle :: nat
  oplog :: "fhe_op list"

text \<open>
  The four errors the contract declares, the failure of the substrate on an invalid input
  proof, the panic of an array index out of bounds, and the revert of a function that is
  not payable when value is attached.
\<close>

datatype error =
    InvalidPrediction
  | InvalidOptions
  | BetAlreadyPlaced
  | InvalidBetAmount
  | ProofRejected
  | Panic
  | NotPayable

text \<open>The value of a storage slot of encrypted type that was never assigned: the zero handle.\<close>

definition uninit :: "'a::zero enc" where
  "uninit = Enc Uninit 0"

text \<open>
  Modelled from the spec: the library \<^verbatim>\<open>@fhevm/solidity/lib/FHE.sol\<close> is imported by the
  contract and is not part of the repository.  Section 6 of the specification lists its
  operations: encrypt a plaintext at a width, ingest an external input with its proof
  (failing the calling operation when the proof is invalid), add, equality-compare and
  select over ciphertexts, grant decryption to the system itself and to an address.  Each
  computing operation returns a fresh handle, chosen without looking at any plaintext, and
  logs its operand and result handles; the encryption of a public plaintext logs that
  plaintext.  Addition wraps around at the width of its operands.  An operand is taken to
  be initialised: the contract never passes the zero handle (lemma \<open>reachable_init_inv\<close>).
\<close>

definition trivialEncrypt :: "nat \<Rightarrow> 'a::len word \<Rightarrow> fhe \<Rightarrow> 'a word enc \<times> fhe" where
  "trivialEncrypt bits v f =
     (let h = Computed (nextHandle f)
      in (Enc h v, f\<lparr>nextHandle := Suc (nextHandle f),
                      oplog := oplog f @ [OpTrivial bits (unat v) h]\<rparr>))"

definition FHE_asEuint8 :: "8 word \<Rightarrow> fhe \<Rightarrow> euint8 \<times> fhe" where
  "FHE_asEuint8 v f = trivialEncrypt 8 v f"

definition FHE_asEuint32 :: "32 word \<Rightarrow> fhe \<Rightarrow> euint32 \<times> fhe" where
  "FHE_asEuint32 v f = trivialEncrypt 32 v f"

definition FHE_asEuint64 :: "64 word \<Rightarrow> fhe \<Rightarrow> euint64 \<times> fhe" where
  "FHE_asEuint64 v f = trivialEncrypt 64 v f"

definition FHE_fromExternal ::
  "externalEuint8 \<Rightarrow> inputProof \<Rightarrow> fhe \<Rightarrow> error + (euint8 \<times> fhe)" where
  "FHE_fromExternal inputHandle inputProof f =
     (case inputProof of
        Rejected \<Rightarrow> Inl ProofRejected
      | Attests v \<Rightarrow>
          Inr (Enc (Input inputHandle) v, f\<lparr>oplog := oplog f @ [OpVerify (Input inputHandle)]\<rparr>))"

definition FHE_add :: "'a::len word enc \<Rightarrow> 'a word enc \<Rightarrow> fhe \<Rightarrow> 'a word enc \<times> fhe" where
  "FHE_add a b f =
     (let h = Computed (nextHandle f)
      in (Enc h (plain a + plain b),
          f\<lparr>nextHandle := Suc (nextHandle f), oplog := oplog f @ [OpAdd (hid a) (hid b) h]\<rparr>))"

definition FHE_eq :: "'a enc \<Rightarrow> 'a enc \<Rightarrow> fhe \<Rightarrow> ebool \<times> fhe" where
  "FHE_eq a b f =
     (let h = Computed (nextHandle f)
      in (Enc h (plain a = plain b),
          f\<lparr>nextHandle := Suc (nextHandle f), oplog := oplog f @ [OpEq (hid a) (hid b) h]\<rparr>))"

definition FHE_select :: "ebool \<Rightarrow> 'a enc \<Rightarrow> 'a enc \<Rightarrow> fhe \<Rightarrow> 'a enc \<times> fhe" where
  "FHE_select c a b f =
     (let h = Computed (nextHandle f)
      in (Enc h (if plain c then plain a else plain b),
          f\<lparr>nextHandle := Suc (nextHandle f),
            oplog := oplog f @ [OpSelect (hid c) (hid a) (hid b) h]\<rparr>))"

definition FHE_allowThis :: "'a enc \<Rightarrow> fhe \<Rightarrow> fhe" where
  "FHE_allowThis a f = f\<lparr>oplog := oplog f @ [OpAllow (hid a) This]\<rparr>"

definition FHE_allow :: "'a enc \<Rightarrow> address \<Rightarrow> fhe \<Rightarrow> fhe" where
  "FHE_allow a who f = f\<lparr>oplog := oplog f @ [OpAllow (hid a) (Account who)]\<rparr>"

text \<open>Who may decrypt which handle: every grant ever logged.\<close>

definition allowed :: "fhe \<Rightarrow> handle \<Rightarrow> principal \<Rightarrow> bool" where
  "allowed f h p = (OpAllow h p \<in> set (oplog f))"

definition grants :: "fhe \<Rightarrow> (handle \<times> principal) set" where
  "grants f = {(h, p). allowed f h p}"


section \<open>State of the contract\<close>

text \<open>
  The two structs, the events, and the storage of the contract: the array of predictions
  and the mapping from prediction id and address to a bet, every key of which reads as the
  default bet until it is written.
\<close>

record Prediction =
  title :: string
  options :: "string list"
  optionCount :: "8 word"
  createdAt :: "64 word"
  creator :: address
  totalStaked :: euint64
  totalBets :: euint32
  optionCounts :: "euint32 list"

record Bet =
  choice :: euint8
  amount :: euint64
  exists :: bool

datatype event =
    PredictionCreated nat address string "8 word"
  | BetPlaced nat address "64 word"

record state =
  predictions :: "Prediction list"
  bets :: "nat \<Rightarrow> address \<Rightarrow> Bet"
  substrate :: fhe
  events :: "event list"

text \<open>The transaction context: \<^verbatim>\<open>msg.sender\<close>, \<^verbatim>\<open>msg.value\<close>, \<^verbatim>\<open>block.timestamp\<close>.\<close>

record env =
  msg_sender :: address
  msg_value :: nat
  block_timestamp :: nat

text \<open>Storage defaults: what \<^verbatim>\<open>_predictions.push()\<close> appends and what an absent key of
  \<^verbatim>\<open>_bets\<close> reads as.  The array \<^verbatim>\<open>euint32[4]\<close> is a list of four slots.\<close>

definition empty_prediction :: Prediction where
  "empty_prediction =
     \<lparr>title = [], options = [], optionCount = 0, createdAt = 0, creator = 0,
      totalStaked = uninit, totalBets = uninit, optionCounts = replicate 4 uninit\<rparr>"

definition empty_bet :: Bet where
  "empty_bet = \<lparr>choice = uninit, amount = uninit, exists = False\<rparr>"

definition init_state :: state where
  "init_state =
     \<lparr>predictions = [], bets = (\<lambda>_ _. empty_bet),
      substrate = \<lparr>nextHandle = 0, oplog = []\<rparr>, events = []\<rparr>"


section \<open>createPrediction\<close>

text \<open>The loop of lines 50-54; an index outside the four-slot array panics.\<close>

function create_loop ::
  "nat \<Rightarrow> string list \<Rightarrow> Prediction \<Rightarrow> fhe \<Rightarrow> error + (Prediction \<times> fhe)" where
  "create_loop i opts p f =
     (if i < length opts then
        (if i < 4 then
           (let (z, f1) = FHE_asEuint32 0 f;
                p1 = p\<lparr>options := options p @ [opts ! i],
                       optionCounts := (optionCounts p)[i := z]\<rparr>;
                f2 = FHE_allowThis (optionCounts p1 ! i) f1
            in create_loop (Suc i) opts p1 f2)
         else Inl Panic)
      else Inr (p, f))"
  by pat_completeness auto
termination
  by (relation "measure (\<lambda>(i, opts, p, f). length opts - i)") auto

text \<open>
  Lines 39-64.  The prediction is built in a local copy of the pushed element and appended
  at the end; nothing reads \<^verbatim>\<open>_predictions\<close> in between.  The function returns the new state
  and the id.
\<close>

definition createPrediction ::
  "env \<Rightarrow> string \<Rightarrow> string list \<Rightarrow> state \<Rightarrow> error + (state \<times> nat)" where
  "createPrediction e ttl opts s =
     (if length opts < 2 \<or> length opts > 4 then Inl InvalidOptions
      else
        (let p0 = empty_prediction\<lparr>title := ttl, optionCount := of_nat (length opts),
                    createdAt := of_nat (block_timestamp e), creator := msg_sender e\<rparr>
         in case create_loop 0 opts p0 (substrate s) of
              Inl err \<Rightarrow> Inl err
            | Inr (p1, f1) \<Rightarrow>
                (let (ts, f2) = FHE_asEuint64 0 f1;
                     (tb, f3) = FHE_asEuint32 0 f2;
                     p2 = p1\<lparr>totalStaked := ts, totalBets := tb\<rparr>;
                     f4 = FHE_allowThis (totalStaked p2) f3;
                     f5 = FHE_allowThis (totalBets p2) f4;
                     preds = predictions s @ [p2];
                     predictionId = length preds - 1
                 in Inr (s\<lparr>predictions := preds, substrate := f5,
                           events := events s @
                             [PredictionCreated predictionId (msg_sender e) ttl (optionCount p2)]\<rparr>,
                         predictionId))))"


section \<open>placeBet\<close>

text \<open>The loop of lines 97-103 over every option slot below \<^verbatim>\<open>optionCount\<close>.\<close>

function bet_loop ::
  "nat \<Rightarrow> euint8 \<Rightarrow> euint32 \<Rightarrow> euint32 \<Rightarrow> address \<Rightarrow> Prediction \<Rightarrow> fhe
     \<Rightarrow> error + (Prediction \<times> fhe)" where
  "bet_loop i ch one zero who p f =
     (if i < unat (optionCount p) then
        (if i < 4 then
           (let (ci, f1) = FHE_asEuint8 (of_nat i) f;
                (matches, f2) = FHE_eq ch ci f1;
                (increment, f3) = FHE_select matches one zero f2;
                (c, f4) = FHE_add (optionCounts p ! i) increment f3;
                p1 = p\<lparr>optionCounts := (optionCounts p)[i := c]\<rparr>;
                f5 = FHE_allowThis (optionCounts p1 ! i) f4;
                f6 = FHE_allow (optionCounts p1 ! i) who f5
            in bet_loop (Suc i) ch one zero who p1 f6)
         else Inl Panic)
      else Inr (p, f))"
  by pat_completeness auto
termination
  by (relation "measure (\<lambda>(i, ch, one, zero, who, p, f). unat (optionCount p) - i)")
     (auto simp: FHE_add_def FHE_select_def FHE_eq_def FHE_asEuint8_def trivialEncrypt_def Let_def)

text \<open>
  Lines 67-116.  \<^verbatim>\<open>msg.value\<close> is a natural number below \<open>2^256\<close>; \<^verbatim>\<open>uint64(msg.value)\<close> is
  its truncation \<open>of_nat\<close> to 64 bits.
\<close>

definition placeBet ::
  "env \<Rightarrow> nat \<Rightarrow> externalEuint8 \<Rightarrow> inputProof \<Rightarrow> state \<Rightarrow> error + state" where
  "placeBet e predictionId encryptedChoice inputProof s =
     (if predictionId \<ge> length (predictions s) then Inl InvalidPrediction
      else if msg_value e = 0 \<or> msg_value e > 2 ^ 64 - 1 then Inl InvalidBetAmount
      else if exists (bets s predictionId (msg_sender e)) then Inl BetAlreadyPlaced
      else
        (let prediction = predictions s ! predictionId
         in case FHE_fromExternal encryptedChoice inputProof (substrate s) of
              Inl err \<Rightarrow> Inl err
            | Inr (ch, f1) \<Rightarrow>
                (let (amountEncrypted, f2) = FHE_asEuint64 (of_nat (msg_value e)) f1;
                     bet = \<lparr>choice = ch, amount = amountEncrypted, exists = True\<rparr>;
                     (ts, f3) = FHE_add (totalStaked prediction) amountEncrypted f2;
                     (ob, f4) = FHE_asEuint32 1 f3;
                     (tb, f5) = FHE_add (totalBets prediction) ob f4;
                     p1 = prediction\<lparr>totalStaked := ts, totalBets := tb\<rparr>;
                     (one, f6) = FHE_asEuint32 1 f5;
                     (zero, f7) = FHE_asEuint32 0 f6
                 in case bet_loop 0 ch one zero (msg_sender e) p1 f7 of
                      Inl err \<Rightarrow> Inl err
                    | Inr (p2, f8) \<Rightarrow>
                        (let f9 = FHE_allowThis (totalStaked p2) f8;
                             f10 = FHE_allowThis (totalBets p2) f9;
                             f11 = FHE_allow (totalStaked p2) (msg_sender e) f10;
                             f12 = FHE_allow (totalBets p2) (msg_sender e) f11;
                             f13 = FHE_allowThis (choice bet) f12;
                             f14 = FHE_allowThis (amount bet) f13;
                             f15 = FHE_allow (choice bet) (msg_sender e) f14;
                             f16 = FHE_allow (amount bet) (msg_sender e) f15
                         in Inr (s\<lparr>predictions := (predictions s)[predictionId := p2],
                                   bets := (bets s)(predictionId :=
                                             (bets s predictionId)(msg_sender e := bet)),
                                   substrate := f16,
                                   events := events s @
                                     [BetPlaced predictionId (msg_sender e)
                                        (of_nat (msg_value e))]\<rparr>)))))"


section \<open>grantAccess\<close>

text \<open>Lines 119-136: the loop over the counters, then the function.\<close>

function grant_loop :: "nat \<Rightarrow> address \<Rightarrow> Prediction \<Rightarrow> fhe \<Rightarrow> error + fhe" where
  "grant_loop i who p f =
     (if i < unat (optionCount p) then
        (if i < 4 then grant_loop (Suc i) who p (FHE_allow (optionCounts p ! i) who f)
         else Inl Panic)
      else Inr f)"
  by pat_completeness auto
termination
  by (relation "measure (\<lambda>(i, who, p, f). unat (optionCount p) - i)") auto

definition grantAccess :: "env \<Rightarrow> nat \<Rightarrow> state \<Rightarrow> error + state" where
  "grantAccess e predictionId s =
     (if predictionId \<ge> length (predictions s) then Inl InvalidPrediction
      else
        (let prediction = predictions s ! predictionId;
             f1 = FHE_allow (totalStaked prediction) (msg_sender e) (substrate s);
             f2 = FHE_allow (totalBets prediction) (msg_sender e) f1
         in case grant_loop 0 (msg_sender e) prediction f2 of
              Inl err \<Rightarrow> Inl err
            | Inr f3 \<Rightarrow>
                (let bet = bets s predictionId (msg_sender e);
                     f5 = (if exists bet
                           then FHE_allow (amount bet) (msg_sender e)
                                  (FHE_allow (choice bet) (msg_sender e) f3)
                           else f3)
                 in Inr (s\<lparr>substrate := f5\<rparr>))))"


section \<open>Read operations\<close>

text \<open>Lines 139-194.\<close>

definition getPredictionCount :: "state \<Rightarrow> nat" where
  "getPredictionCount s = length (predictions s)"

definition getPredictionMeta ::
  "nat \<Rightarrow> state \<Rightarrow> error + (string \<times> 8 word \<times> 64 word \<times> address)" where
  "getPredictionMeta predictionId s =
     (if predictionId \<ge> length (predictions s) then Inl InvalidPrediction
      else
        (let prediction = predictions s ! predictionId
         in Inr (title prediction, optionCount prediction, createdAt prediction,
                 creator prediction)))"

definition getPredictionOptions :: "nat \<Rightarrow> state \<Rightarrow> error + string list" where
  "getPredictionOptions predictionId s =
     (if predictionId \<ge> length (predictions s) then Inl InvalidPrediction
      else Inr (options (predictions s ! predictionId)))"

definition getPredictionTotals :: "nat \<Rightarrow> state \<Rightarrow> error + (euint64 \<times> euint32)" where
  "getPredictionTotals predictionId s =
     (if predictionId \<ge> length (predictions s) then Inl InvalidPrediction
      else
        (let prediction = predictions s ! predictionId
         in Inr (totalStaked prediction, totalBets prediction)))"

text \<open>The copy loop of lines 178-180 into a fresh memory array of \<^verbatim>\<open>optionCount\<close> slots.\<close>

function counts_loop :: "nat \<Rightarrow> Prediction \<Rightarrow> euint32 list \<Rightarrow> error + euint32 list" where
  "counts_loop i p counts =
     (if i < unat (optionCount p) then
        (if i < length counts \<and> i < 4
         then counts_loop (Suc i) p (counts[i := optionCounts p ! i])
         else Inl Panic)
      else Inr counts)"
  by pat_completeness auto
termination
  by (relation "measure (\<lambda>(i, p, counts). unat (optionCount p) - i)") auto

definition getOptionCounts :: "nat \<Rightarrow> state \<Rightarrow> error + euint32 list" where
  "getOptionCounts predictionId s =
     (if predictionId \<ge> length (predictions s) then Inl InvalidPrediction
      else
        (let prediction = predictions s ! predictionId;
             counts = replicate (unat (optionCount prediction)) uninit
         in counts_loop 0 prediction counts))"

definition getUserBet :: "nat \<Rightarrow> address \<Rightarrow> state \<Rightarrow> error + (bool \<times> euint8 \<times> euint64)" where
  "getUserBet predictionId user s =
     (if predictionId \<ge> length (predictions s) then Inl InvalidPrediction
      else
        (let bet = bets s predictionId user
         in Inr (exists bet, choice bet, amount bet)))"


section \<open>Transactions and reachable states\<close>

text \<open>
  A transaction that reverts leaves the state as it was: this is the atomicity of the
  executing ledger, which the contract relies on.  Only \<^verbatim>\<open>placeBet\<close> is payable; a call of
  one of the other two functions that carries value reverts before the body runs.
\<close>

datatype tx =
    CreatePrediction env string "string list"
  | PlaceBet env nat externalEuint8 inputProof
  | GrantAccess env nat

fun run :: "tx \<Rightarrow> state \<Rightarrow> error + state" where
  "run (CreatePrediction e ttl opts) s =
     (if msg_value e \<noteq> 0 then Inl NotPayable
      else map_sum id fst (createPrediction e ttl opts s))"
| "run (PlaceBet e predictionId encryptedChoice inputProof) s =
     placeBet e predictionId encryptedChoice inputProof s"
| "run (GrantAccess e predictionId) s =
     (if msg_value e \<noteq> 0 then Inl NotPayable else grantAccess e predictionId s)"

definition step :: "state \<Rightarrow> tx \<Rightarrow> state" where
  "step s t = (case run t s of Inl err \<Rightarrow> s | Inr s' \<Rightarrow> s')"

inductive reachable :: "state \<Rightarrow> bool" where
  reachable_init: "reachable init_state"
| reachable_step: "reachable s \<Longrightarrow> reachable (step s t)"


section \<open>Closed forms of the operations\<close>

text \<open>
  What each operation computes, written without the loops: the operations logged for one
  option slot, the prediction and the state after an accepted bet, after a creation, and
  after \<^verbatim>\<open>grantAccess\<close>.  Fresh handles are numbered from the handle counter \<open>n\<close> of the
  state the operation starts in.  The lemmas of the following sections prove that the code
  computes exactly these.
\<close>

definition slot_ops :: "handle \<Rightarrow> handle \<Rightarrow> handle \<Rightarrow> address \<Rightarrow> nat \<Rightarrow> nat \<Rightarrow> handle \<Rightarrow> fhe_op list" where
  "slot_ops ch one zero who n i cnt =
     [OpTrivial 8 i (Computed n),
      OpEq ch (Computed n) (Computed (n + 1)),
      OpSelect (Computed (n + 1)) one zero (Computed (n + 2)),
      OpAdd cnt (Computed (n + 2)) (Computed (n + 3)),
      OpAllow (Computed (n + 3)) This,
      OpAllow (Computed (n + 3)) (Account who)]"

definition slot_result :: "euint8 \<Rightarrow> euint32 \<Rightarrow> euint32 \<Rightarrow> nat \<Rightarrow> nat \<Rightarrow> euint32 \<Rightarrow> euint32" where
  "slot_result ch one zero n i old =
     Enc (Computed (n + 3)) (plain old + (if plain ch = of_nat i then plain one else plain zero))"

definition bet_ops :: "address \<Rightarrow> nat \<Rightarrow> externalEuint8 \<Rightarrow> nat \<Rightarrow> Prediction \<Rightarrow> fhe_op list" where
  "bet_ops who v h n p =
     [OpVerify (Input h),
      OpTrivial 64 v (Computed n),
      OpAdd (hid (totalStaked p)) (Computed n) (Computed (n + 1)),
      OpTrivial 32 1 (Computed (n + 2)),
      OpAdd (hid (totalBets p)) (Computed (n + 2)) (Computed (n + 3)),
      OpTrivial 32 1 (Computed (n + 4)),
      OpTrivial 32 0 (Computed (n + 5))] @
     concat (map (\<lambda>i. slot_ops (Input h) (Computed (n + 4)) (Computed (n + 5)) who
                          (n + 6 + 4 * i) i (hid (optionCounts p ! i)))
               [0..<unat (optionCount p)]) @
     [OpAllow (Computed (n + 1)) This,
      OpAllow (Computed (n + 3)) This,
      OpAllow (Computed (n + 1)) (Account who),
      OpAllow (Computed (n + 3)) (Account who),
      OpAllow (Input h) This,
      OpAllow (Computed n) This,
      OpAllow (Input h) (Account who),
      OpAllow (Computed n) (Account who)]"

definition bet_prediction :: "8 word \<Rightarrow> nat \<Rightarrow> nat \<Rightarrow> Prediction \<Rightarrow> Prediction" where
  "bet_prediction c v n p =
     p\<lparr>totalStaked := Enc (Computed (n + 1)) (plain (totalStaked p) + of_nat v),
       totalBets := Enc (Computed (n + 3)) (plain (totalBets p) + 1),
       optionCounts :=
         map (\<lambda>i. if i < unat (optionCount p)
                  then Enc (Computed (n + 6 + 4 * i + 3))
                         (plain (optionCounts p ! i) + (if c = of_nat i then 1 else 0))
                  else optionCounts p ! i) [0..<4]\<rparr>"

definition bet_state :: "env \<Rightarrow> nat \<Rightarrow> externalEuint8 \<Rightarrow> 8 word \<Rightarrow> state \<Rightarrow> state" where
  "bet_state e pid h c s =
     (let n = nextHandle (substrate s); p = predictions s ! pid
      in s\<lparr>predictions := (predictions s)[pid := bet_prediction c (msg_value e) n p],
           bets := (bets s)(pid := (bets s pid)(msg_sender e :=
                     \<lparr>choice = Enc (Input h) c,
                      amount = Enc (Computed n) (of_nat (msg_value e)),
                      exists = True\<rparr>)),
           substrate := \<lparr>nextHandle = n + 6 + 4 * unat (optionCount p),
                         oplog = oplog (substrate s) @ bet_ops (msg_sender e) (msg_value e) h n p\<rparr>,
           events := events s @ [BetPlaced pid (msg_sender e) (of_nat (msg_value e))]\<rparr>)"

definition created_prediction :: "env \<Rightarrow> string \<Rightarrow> string list \<Rightarrow> nat \<Rightarrow> Prediction" where
  "created_prediction e ttl opts n =
     \<lparr>title = ttl, options = opts, optionCount = of_nat (length opts),
      createdAt = of_nat (block_timestamp e), creator = msg_sender e,
      totalStaked = Enc (Computed (n + length opts)) 0,
      totalBets = Enc (Computed (n + length opts + 1)) 0,
      optionCounts = map (\<lambda>j. if j < length opts then Enc (Computed (n + j)) 0 else uninit) [0..<4]\<rparr>"

definition create_ops :: "nat \<Rightarrow> nat \<Rightarrow> fhe_op list" where
  "create_ops m n =
     concat (map (\<lambda>j. [OpTrivial 32 0 (Computed (n + j)), OpAllow (Computed (n + j)) This]) [0..<m]) @
     [OpTrivial 64 0 (Computed (n + m)),
      OpTrivial 32 0 (Computed (n + m + 1)),
      OpAllow (Computed (n + m)) This,
      OpAllow (Computed (n + m + 1)) This]"

definition created_state :: "env \<Rightarrow> string \<Rightarrow> string list \<Rightarrow> state \<Rightarrow> state" where
  "created_state e ttl opts s =
     (let n = nextHandle (substrate s)
      in s\<lparr>predictions := predictions s @ [created_prediction e ttl opts n],
           substrate := \<lparr>nextHandle = n + length opts + 2,
                         oplog = oplog (substrate s) @ create_ops (length opts) n\<rparr>,
           events := events s @
             [PredictionCreated (length (predictions s)) (msg_sender e) ttl (of_nat (length opts))]\<rparr>)"

definition grant_ops :: "address \<Rightarrow> Prediction \<Rightarrow> Bet \<Rightarrow> fhe_op list" where
  "grant_ops who p b =
     [OpAllow (hid (totalStaked p)) (Account who), OpAllow (hid (totalBets p)) (Account who)] @
     map (\<lambda>j. OpAllow (hid (optionCounts p ! j)) (Account who)) [0..<unat (optionCount p)] @
     (if exists b
      then [OpAllow (hid (choice b)) (Account who), OpAllow (hid (amount b)) (Account who)]
      else [])"

definition granted_state :: "env \<Rightarrow> nat \<Rightarrow> state \<Rightarrow> state" where
  "granted_state e pid s =
     s\<lparr>substrate := (substrate s)\<lparr>oplog := oplog (substrate s) @
          grant_ops (msg_sender e) (predictions s ! pid) (bets s pid (msg_sender e))\<rparr>\<rparr>"


section \<open>Invariants of reachable states\<close>

text \<open>
  A stored prediction has 2 to 4 options, four counter slots, and the zero handle in every
  slot from \<^verbatim>\<open>optionCount\<close> on.  A bet that does not exist is the storage default, and a bet
  exists exactly when its \<^verbatim>\<open>BetPlaced\<close> event was emitted.  The handles the contract passes to
  the substrate (the totals, the counters below \<^verbatim>\<open>optionCount\<close>, the fields of existing bets)
  are never the zero handle.
\<close>

definition wf_prediction :: "Prediction \<Rightarrow> bool" where
  "wf_prediction p \<longleftrightarrow>
     2 \<le> unat (optionCount p) \<and> unat (optionCount p) \<le> 4 \<and>
     length (optionCounts p) = 4 \<and>
     length (options p) = unat (optionCount p) \<and>
     drop (unat (optionCount p)) (optionCounts p) = replicate (4 - unat (optionCount p)) uninit"

definition wf_state :: "state \<Rightarrow> bool" where
  "wf_state s \<longleftrightarrow> (\<forall>p \<in> set (predictions s). wf_prediction p)"

definition bets_inv :: "state \<Rightarrow> bool" where
  "bets_inv s \<longleftrightarrow>
     (\<forall>pid a. \<not> exists (bets s pid a) \<longrightarrow> bets s pid a = empty_bet) \<and>
     (\<forall>pid a. exists (bets s pid a) \<longleftrightarrow> (\<exists>amt. BetPlaced pid a amt \<in> set (events s)))"

fun op_handles :: "fhe_op \<Rightarrow> handle list" where
  "op_handles (OpTrivial bits v r) = [r]"
| "op_handles (OpVerify r) = [r]"
| "op_handles (OpAdd a b r) = [a, b, r]"
| "op_handles (OpEq a b r) = [a, b, r]"
| "op_handles (OpSelect c a b r) = [c, a, b, r]"
| "op_handles (OpAllow a who) = [a]"

definition handles_used :: "fhe \<Rightarrow> handle set" where
  "handles_used f = (\<Union>x \<in> set (oplog f). set (op_handles x))"

definition live_handles :: "Prediction \<Rightarrow> handle set" where
  "live_handles p =
     {hid (totalStaked p), hid (totalBets p)} \<union>
     hid ` set (take (unat (optionCount p)) (optionCounts p))"

definition init_inv :: "state \<Rightarrow> bool" where
  "init_inv s \<longleftrightarrow>
     Uninit \<notin> handles_used (substrate s) \<and>
     (\<forall>p \<in> set (predictions s). Uninit \<notin> live_handles p) \<and>
     (\<forall>pid a. exists (bets s pid a) \<longrightarrow>
        hid (choice (bets s pid a)) \<noteq> Uninit \<and> hid (amount (bets s pid a)) \<noteq> Uninit)"


section \<open>The ledger of accepted bets\<close>

text \<open>
  The bets a trace of transactions places on one market: the attested choice and the
  attached stake of every \<^verbatim>\<open>placeBet\<close> on that market that does not revert, in order.  The
  sum of the counters is taken over the slots below \<^verbatim>\<open>optionCount\<close>, in 32-bit arithmetic.
\<close>

fun bet_of :: "nat \<Rightarrow> state \<Rightarrow> tx \<Rightarrow> (8 word \<times> nat) list" where
  "bet_of pid s (PlaceBet e p h (Attests c)) =
     (if p = pid \<and> \<not> isl (placeBet e p h (Attests c) s) then [(c, msg_value e)] else [])"
| "bet_of pid s t = []"

fun accepted_bets :: "nat \<Rightarrow> state \<Rightarrow> tx list \<Rightarrow> (8 word \<times> nat) list" where
  "accepted_bets pid s [] = []"
| "accepted_bets pid s (t # ts) = bet_of pid s t @ accepted_bets pid (step s t) ts"

definition counts_sum :: "Prediction \<Rightarrow> 32 word" where
  "counts_sum p = sum_list (map plain (take (unat (optionCount p)) (optionCounts p)))"

definition in_range :: "nat \<Rightarrow> 8 word \<times> nat \<Rightarrow> bool" where
  "in_range k b \<longleftrightarrow> unat (fst b) < k"


section \<open>Handles without plaintexts\<close>

text \<open>
  What an observer of the ledger sees of a prediction and of a bet: the plaintext fields
  and the handles, not the plaintexts behind the handles.
\<close>

definition prediction_shape ::
  "Prediction \<Rightarrow> string \<times> string list \<times> 8 word \<times> 64 word \<times> address \<times> handle \<times> handle \<times> handle list" where
  "prediction_shape p =
     (title p, options p, optionCount p, createdAt p, creator p,
      hid (totalStaked p), hid (totalBets p), map hid (optionCounts p))"

definition bet_shape :: "Bet \<Rightarrow> handle \<times> handle \<times> bool" where
  "bet_shape b = (hid (choice b), hid (amount b), exists b)"


section \<open>A worked scenario\<close>

text \<open>
  Alice creates the market "A or B" with the options A and B and bets 10 on option 0.
  From there Bob bets 20, either on option 1 or with the out-of-range choice 2.  In a
  second line of events Alice stakes the largest accepted amount and Bob adds 1.
\<close>

definition alice :: address where
  "alice = 1"

definition bob :: address where
  "bob = 2"

definition ctx :: "address \<Rightarrow> nat \<Rightarrow> env" where
  "ctx who v = \<lparr>msg_sender = who, msg_value = v, block_timestamp = 1000\<rparr>"

definition market_created :: state where
  "market_created = step init_state (CreatePrediction (ctx alice 0) ''A or B'' [''A'', ''B''])"

definition fresh_market :: Prediction where
  "fresh_market =
     \<lparr>title = ''A or B'', options = [''A'', ''B''], optionCount = 2, createdAt = 1000,
      creator = alice, totalStaked = Enc (Computed 2) 0, totalBets = Enc (Computed 3) 0,
      optionCounts = [Enc (Computed 0) 0, Enc (Computed 1) 0, uninit, uninit]\<rparr>"

definition alice_bet :: state where
  "alice_bet = step market_created (PlaceBet (ctx alice 10) 0 7 (Attests 0))"

definition both_bet :: state where
  "both_bet = step alice_bet (PlaceBet (ctx bob 20) 0 8 (Attests 1))"

definition stray_bet :: state where
  "stray_bet = step alice_bet (PlaceBet (ctx bob 20) 0 8 (Attests 2))"

definition max_bet :: state where
  "max_bet = step market_created (PlaceBet (ctx alice (2 ^ 64 - 1)) 0 7 (Attests 0))"

definition wrapped_bet :: state where
  "wrapped_bet = step max_bet (PlaceBet (ctx bob 1) 0 8 (Attests 1))"

definition market_trace :: "tx list" where
  "market_trace =
     [CreatePrediction (ctx alice 0) ''A or B'' [''A'', ''B''],
      PlaceBet (ctx alice 10) 0 7 (Attests 0)]"

text \<open>
  A crowd: on a market created as above, the accounts \<open>0, 1, 2, \<dots>\<close> each stake 1 on
  option 0, one after the other; \<open>crowd_trace\<close> is the creation followed by \<open>2^32\<close> of
  these bets.
\<close>

definition crowd :: "nat \<Rightarrow> tx list" where
  "crowd n = map (\<lambda>i. PlaceBet (ctx (of_nat i) 1) 0 i (Attests 0)) [0..<n]"

definition crowd_trace :: "tx list" where
  "crowd_trace = CreatePrediction (ctx alice 0) ''A or B'' [''A'', ''B''] # crowd (2 ^ 32)"

definition crowded :: state where
  "crowded = foldl step init_state crowd_trace"


section \<open>The loops in closed form\<close>

text \<open>
  Each loop of the contract runs at most four times.  The lemmas give its result without
  recursion: the slots it writes, the handles it draws and the operations it logs.
\<close>

lemmas fhe_defs = FHE_add_def FHE_select_def FHE_eq_def FHE_asEuint8_def FHE_asEuint32_def FHE_asEuint64_def trivialEncrypt_def FHE_allow_def FHE_allowThis_def FHE_fromExternal_def

declare bet_loop.simps [simp del] create_loop.simps [simp del] grant_loop.simps [simp del] counts_loop.simps [simp del]

lemma unat_of_nat8_small: "i < 4 \<Longrightarrow> unat (of_nat i :: 8 word) = i"
  by (simp add: unat_of_nat)

lemma slot_offset: "Suc i \<le> j \<Longrightarrow> n + 4 + 4 * (j - Suc i) = n + 4 * (j - i)"
  by arith

lemma bet_loop_closed:
  assumes len: "length (optionCounts p) = 4" and k4: "unat (optionCount p) \<le> 4"
  shows "bet_loop i ch one zero who p f =
     Inr (p\<lparr>optionCounts :=
              map (\<lambda>j. if i \<le> j \<and> j < unat (optionCount p)
                       then slot_result ch one zero (nextHandle f + 4 * (j - i)) j (optionCounts p ! j)
                       else optionCounts p ! j) [0..<4]\<rparr>,
          f\<lparr>nextHandle := nextHandle f + 4 * (unat (optionCount p) - i),
            oplog := oplog f @
              concat (map (\<lambda>j. slot_ops (hid ch) (hid one) (hid zero) who
                                  (nextHandle f + 4 * (j - i)) j (hid (optionCounts p ! j)))
                       [i..<unat (optionCount p)])\<rparr>)"
  using len k4
proof (induction "unat (optionCount p) - i" arbitrary: i p f)
  case 0
  then have "\<not> i < unat (optionCount p)" by simp
  moreover have "map (\<lambda>j. if i \<le> j \<and> j < unat (optionCount p)
                       then slot_result ch one zero (nextHandle f + 4 * (j - i)) j (optionCounts p ! j)
                       else optionCounts p ! j) [0..<4] = optionCounts p"
    using 0 by (auto simp: list_eq_iff_nth_eq)
  ultimately show ?case
    by (subst bet_loop.simps) simp
next
  case (Suc d)
  let ?k = "unat (optionCount p)"
  let ?n = "nextHandle f"
  let ?c = "slot_result ch one zero ?n i (optionCounts p ! i)"
  let ?p1 = "p\<lparr>optionCounts := (optionCounts p)[i := ?c]\<rparr>"
  let ?f6 = "f\<lparr>nextHandle := ?n + 4, oplog := oplog f @ slot_ops (hid ch) (hid one) (hid zero) who ?n i (hid (optionCounts p ! i))\<rparr>"
  from Suc have ik: "i < ?k" and i4: "i < 4" by simp_all
  have unfold: "bet_loop i ch one zero who p f = bet_loop (Suc i) ch one zero who ?p1 ?f6"
    using ik i4 Suc.prems
    by (subst bet_loop.simps) (simp add: fhe_defs slot_result_def slot_ops_def unat_of_nat8_small Let_def eval_nat_numeral)
  have d: "d = unat (optionCount ?p1) - Suc i" using Suc.hyps(2) by simp
  have IH: "bet_loop (Suc i) ch one zero who ?p1 ?f6 = Inr (?p1\<lparr>optionCounts :=
              map (\<lambda>j. if Suc i \<le> j \<and> j < unat (optionCount ?p1)
                       then slot_result ch one zero (nextHandle ?f6 + 4 * (j - Suc i)) j (optionCounts ?p1 ! j)
                       else optionCounts ?p1 ! j) [0..<4]\<rparr>,
          ?f6\<lparr>nextHandle := nextHandle ?f6 + 4 * (unat (optionCount ?p1) - Suc i),
            oplog := oplog ?f6 @
              concat (map (\<lambda>j. slot_ops (hid ch) (hid one) (hid zero) who
                                  (nextHandle ?f6 + 4 * (j - Suc i)) j (hid (optionCounts ?p1 ! j)))
                       [Suc i..<unat (optionCount ?p1)])\<rparr>)"
    using Suc.prems by (intro Suc.hyps(1)[OF d]) simp_all
  have counts: "map (\<lambda>j. if Suc i \<le> j \<and> j < ?k
                       then slot_result ch one zero (?n + 4 + 4 * (j - Suc i)) j ((optionCounts p)[i := ?c] ! j)
                       else (optionCounts p)[i := ?c] ! j) [0..<4]
       = map (\<lambda>j. if i \<le> j \<and> j < ?k
                       then slot_result ch one zero (?n + 4 * (j - i)) j (optionCounts p ! j)
                       else optionCounts p ! j) [0..<4]"
    using ik i4 Suc.prems by (auto simp: nth_list_update slot_offset)
  have ops: "concat (map (\<lambda>j. slot_ops (hid ch) (hid one) (hid zero) who
                                  (?n + 4 + 4 * (j - Suc i)) j (hid ((optionCounts p)[i := ?c] ! j)))
                       [Suc i..<?k])
      = concat (map (\<lambda>j. slot_ops (hid ch) (hid one) (hid zero) who
                                  (?n + 4 * (j - i)) j (hid (optionCounts p ! j)))
                       [Suc i..<?k])"
    by (rule arg_cong[where f=concat], rule map_cong) (auto simp: slot_offset)
  have IH': "bet_loop (Suc i) ch one zero who ?p1 ?f6 =
     Inr (p\<lparr>optionCounts := map (\<lambda>j. if Suc i \<le> j \<and> j < ?k
                       then slot_result ch one zero (?n + 4 + 4 * (j - Suc i)) j ((optionCounts p)[i := ?c] ! j)
                       else (optionCounts p)[i := ?c] ! j) [0..<4]\<rparr>,
          f\<lparr>nextHandle := ?n + 4 + 4 * (?k - Suc i),
            oplog := (oplog f @ slot_ops (hid ch) (hid one) (hid zero) who ?n i (hid (optionCounts p ! i))) @
               concat (map (\<lambda>j. slot_ops (hid ch) (hid one) (hid zero) who
                                  (?n + 4 + 4 * (j - Suc i)) j (hid ((optionCounts p)[i := ?c] ! j)))
                       [Suc i..<?k])\<rparr>)"
    unfolding IH by simp
  have nh: "?n + 4 + 4 * (?k - Suc i) = ?n + 4 * (?k - i)"
    using ik by arith
  have upt: "[i..<?k] = i # [Suc i..<?k]"
    using ik by (rule upt_conv_Cons)
  show ?case
    unfolding unfold IH' counts ops nh upt by simp
qed

lemma create_loop_closed:
  assumes len: "length (optionCounts p) = 4" and n4: "length opts \<le> 4"
  shows "create_loop i opts p f =
     Inr (p\<lparr>options := options p @ drop i opts,
            optionCounts :=
              map (\<lambda>j. if i \<le> j \<and> j < length opts
                       then Enc (Computed (nextHandle f + (j - i))) 0
                       else optionCounts p ! j) [0..<4]\<rparr>,
          f\<lparr>nextHandle := nextHandle f + (length opts - i),
            oplog := oplog f @
              concat (map (\<lambda>j. [OpTrivial 32 0 (Computed (nextHandle f + (j - i))),
                                 OpAllow (Computed (nextHandle f + (j - i))) This])
                       [i..<length opts])\<rparr>)"
  using len
proof (induction "length opts - i" arbitrary: i p f)
  case 0
  then have stop: "\<not> i < length opts" by simp
  moreover have "map (\<lambda>j. if i \<le> j \<and> j < length opts
                       then Enc (Computed (nextHandle f + (j - i))) 0
                       else optionCounts p ! j) [0..<4] = optionCounts p"
    using 0 by (auto simp: list_eq_iff_nth_eq)
  ultimately show ?case
    by (subst create_loop.simps) simp
next
  case (Suc d)
  let ?n = "nextHandle f"
  let ?z = "Enc (Computed ?n) 0 :: euint32"
  let ?p1 = "p\<lparr>options := options p @ [opts ! i], optionCounts := (optionCounts p)[i := ?z]\<rparr>"
  let ?f2 = "f\<lparr>nextHandle := ?n + 1,
               oplog := oplog f @ [OpTrivial 32 0 (Computed ?n), OpAllow (Computed ?n) This]\<rparr>"
  from Suc n4 have ik: "i < length opts" and i4: "i < 4" by simp_all
  have unfold: "create_loop i opts p f = create_loop (Suc i) opts ?p1 ?f2"
    using ik i4 Suc.prems
    by (subst create_loop.simps) (simp add: fhe_defs Let_def)
  have d: "d = length opts - Suc i" using Suc.hyps(2) by simp
  have IH: "create_loop (Suc i) opts ?p1 ?f2 =
     Inr (?p1\<lparr>options := options ?p1 @ drop (Suc i) opts,
            optionCounts :=
              map (\<lambda>j. if Suc i \<le> j \<and> j < length opts
                       then Enc (Computed (nextHandle ?f2 + (j - Suc i))) 0
                       else optionCounts ?p1 ! j) [0..<4]\<rparr>,
          ?f2\<lparr>nextHandle := nextHandle ?f2 + (length opts - Suc i),
            oplog := oplog ?f2 @
              concat (map (\<lambda>j. [OpTrivial 32 0 (Computed (nextHandle ?f2 + (j - Suc i))),
                                 OpAllow (Computed (nextHandle ?f2 + (j - Suc i))) This])
                       [Suc i..<length opts])\<rparr>)"
    using Suc.prems by (intro Suc.hyps(1)[OF d]) simp_all
  have IH': "create_loop (Suc i) opts ?p1 ?f2 =
     Inr (p\<lparr>options := (options p @ [opts ! i]) @ drop (Suc i) opts,
            optionCounts :=
              map (\<lambda>j. if Suc i \<le> j \<and> j < length opts
                       then Enc (Computed (?n + 1 + (j - Suc i))) 0
                       else (optionCounts p)[i := ?z] ! j) [0..<4]\<rparr>,
          f\<lparr>nextHandle := ?n + 1 + (length opts - Suc i),
            oplog := (oplog f @ [OpTrivial 32 0 (Computed ?n), OpAllow (Computed ?n) This]) @
              concat (map (\<lambda>j. [OpTrivial 32 0 (Computed (?n + 1 + (j - Suc i))),
                                 OpAllow (Computed (?n + 1 + (j - Suc i))) This])
                       [Suc i..<length opts])\<rparr>)"
    unfolding IH by simp
  have off: "\<And>j. Suc i \<le> j \<Longrightarrow> ?n + 1 + (j - Suc i) = ?n + (j - i)"
    by arith
  have counts: "map (\<lambda>j. if Suc i \<le> j \<and> j < length opts
                       then Enc (Computed (?n + 1 + (j - Suc i))) 0
                       else (optionCounts p)[i := ?z] ! j) [0..<4]
       = map (\<lambda>j. if i \<le> j \<and> j < length opts
                       then Enc (Computed (?n + (j - i))) 0
                       else optionCounts p ! j) [0..<4]"
    using ik i4 Suc.prems by (auto simp: nth_list_update off)
  have ops: "concat (map (\<lambda>j. [OpTrivial 32 0 (Computed (?n + 1 + (j - Suc i))),
                                 OpAllow (Computed (?n + 1 + (j - Suc i))) This])
                       [Suc i..<length opts])
      = concat (map (\<lambda>j. [OpTrivial 32 0 (Computed (?n + (j - i))),
                                 OpAllow (Computed (?n + (j - i))) This])
                       [Suc i..<length opts])"
    by (rule arg_cong[where f=concat], rule map_cong) (auto simp: off)
  have nh: "?n + 1 + (length opts - Suc i) = ?n + (length opts - i)"
    using ik by arith
  have upt: "[i..<length opts] = i # [Suc i..<length opts]"
    using ik by (rule upt_conv_Cons)
  have opts: "(options p @ [opts ! i]) @ drop (Suc i) opts = options p @ drop i opts"
    using ik by (simp add: Cons_nth_drop_Suc)
  show ?case
    unfolding unfold IH' counts ops nh upt opts by simp
qed

lemma grant_loop_closed:
  assumes k4: "unat (optionCount p) \<le> 4"
  shows "grant_loop i who p f =
     Inr (f\<lparr>oplog := oplog f @
            map (\<lambda>j. OpAllow (hid (optionCounts p ! j)) (Account who))
              [i..<unat (optionCount p)]\<rparr>)"
proof (induction "unat (optionCount p) - i" arbitrary: i f)
  case 0
  then show ?case by (subst grant_loop.simps) simp
next
  case (Suc d)
  from Suc k4 have ik: "i < unat (optionCount p)" and i4: "i < 4" by simp_all
  have d: "d = unat (optionCount p) - Suc i" using Suc.hyps(2) by simp
  show ?case
    using ik i4
    by (subst grant_loop.simps) (simp add: Suc.hyps(1)[OF d] FHE_allow_def upt_conv_Cons)
qed

lemma counts_loop_closed:
  assumes k4: "unat (optionCount p) \<le> 4" and len: "length counts = unat (optionCount p)"
  shows "counts_loop i p counts =
     Inr (map (\<lambda>j. if i \<le> j then optionCounts p ! j else counts ! j)
            [0..<unat (optionCount p)])"
  using len
proof (induction "unat (optionCount p) - i" arbitrary: i counts)
  case 0
  then show ?case
    by (subst counts_loop.simps) (auto simp: list_eq_iff_nth_eq)
next
  case (Suc d)
  from Suc k4 have ik: "i < unat (optionCount p)" and i4: "i < 4" by simp_all
  have d: "d = unat (optionCount p) - Suc i" using Suc.hyps(2) by simp
  have "counts_loop i p counts = counts_loop (Suc i) p (counts[i := optionCounts p ! i])"
    using ik i4 Suc.prems by (subst counts_loop.simps) simp
  also have "\<dots> = Inr (map (\<lambda>j. if Suc i \<le> j then optionCounts p ! j
                               else counts[i := optionCounts p ! i] ! j)
                        [0..<unat (optionCount p)])"
    using Suc.prems by (intro Suc.hyps(1)[OF d]) simp
  also have "\<dots> = Inr (map (\<lambda>j. if i \<le> j then optionCounts p ! j else counts ! j)
                        [0..<unat (optionCount p)])"
  proof -
    have eqi: "\<And>x. \<not> Suc i \<le> x \<Longrightarrow> i \<le> x \<Longrightarrow> x = i" by arith
    show ?thesis using Suc.prems by (auto simp: nth_list_update dest: eqi)
  qed
  finally show ?case .
qed


section \<open>The operations in closed form\<close>

text \<open>
  On a well-formed prediction the three mutating operations compute exactly the closed
  forms defined above, and these are their only successful outcomes.
\<close>

lemma unat_of_nat64: "v \<le> 2 ^ 64 - 1 \<Longrightarrow> unat (of_nat v :: 64 word) = v"
  by (simp add: unat_of_nat)

lemma suc_norm:
  "n + 2 = Suc (Suc n)"
  "n + 3 = Suc (Suc (Suc n))"
  "n + 4 = Suc (Suc (Suc (Suc n)))"
  "n + 5 = Suc (Suc (Suc (Suc (Suc n))))"
  "n + 6 = Suc (Suc (Suc (Suc (Suc (Suc n)))))"
  by simp_all

lemma placeBet_closed:
  assumes pid: "pid < length (predictions s)"
    and v: "0 < msg_value e" "msg_value e \<le> 2 ^ 64 - 1"
    and fresh: "\<not> exists (bets s pid (msg_sender e))"
    and wf: "wf_prediction (predictions s ! pid)"
  shows "placeBet e pid h (Attests c) s = Inr (bet_state e pid h c s)"
proof -
  let ?p = "predictions s ! pid"
  have len: "length (optionCounts ?p) = 4" and k4: "unat (optionCount ?p) \<le> 4"
    using wf by (simp_all add: wf_prediction_def)
  have chk: "\<not> (msg_value e = 0 \<or> msg_value e > 2 ^ 64 - 1)"
    using v by simp
  have un: "unat (word_of_nat (msg_value e) :: 64 word) = msg_value e"
    using v(2) by (rule unat_of_nat64)
  have "placeBet e pid h (Attests c) s =
     (let prediction = predictions s ! pid
         in case FHE_fromExternal h (Attests c) (substrate s) of
              Inl err \<Rightarrow> Inl err
            | Inr (ch, f1) \<Rightarrow>
                (let (amountEncrypted, f2) = FHE_asEuint64 (of_nat (msg_value e)) f1;
                     bet = \<lparr>choice = ch, amount = amountEncrypted, exists = True\<rparr>;
                     (ts, f3) = FHE_add (totalStaked prediction) amountEncrypted f2;
                     (ob, f4) = FHE_asEuint32 1 f3;
                     (tb, f5) = FHE_add (totalBets prediction) ob f4;
                     p1 = prediction\<lparr>totalStaked := ts, totalBets := tb\<rparr>;
                     (one, f6) = FHE_asEuint32 1 f5;
                     (zero, f7) = FHE_asEuint32 0 f6
                 in case bet_loop 0 ch one zero (msg_sender e) p1 f7 of
                      Inl err \<Rightarrow> Inl err
                    | Inr (p2, f8) \<Rightarrow>
                        (let f9 = FHE_allowThis (totalStaked p2) f8;
                             f10 = FHE_allowThis (totalBets p2) f9;
                             f11 = FHE_allow (totalStaked p2) (msg_sender e) f10;
                             f12 = FHE_allow (totalBets p2) (msg_sender e) f11;
                             f13 = FHE_allowThis (choice bet) f12;
                             f14 = FHE_allowThis (amount bet) f13;
                             f15 = FHE_allow (choice bet) (msg_sender e) f14;
                             f16 = FHE_allow (amount bet) (msg_sender e) f15
                         in Inr (s\<lparr>predictions := (predictions s)[pid := p2],
                                   bets := (bets s)(pid :=
                                             (bets s pid)(msg_sender e := bet)),
                                   substrate := f16,
                                   events := events s @
                                     [BetPlaced pid (msg_sender e)
                                        (of_nat (msg_value e))]\<rparr>))))"
    unfolding placeBet_def using pid chk fresh by (simp only: if_False not_le[symmetric] simp_thms)
  also have "\<dots> = Inr (bet_state e pid h c s)"
    using len k4
    apply (simp add: fhe_defs Let_def bet_loop_closed)
    apply (simp add: bet_state_def bet_prediction_def bet_ops_def Let_def slot_result_def slot_ops_def un suc_norm cong: if_cong)
    done
  finally show ?thesis .
qed

lemma createPrediction_closed:
  assumes m: "2 \<le> length opts" "length opts \<le> 4"
  shows "createPrediction e ttl opts s = Inr (created_state e ttl opts s, length (predictions s))"
proof -
  have chk: "\<not> (length opts < 2 \<or> length opts > 4)" using m by simp
  have len: "length (optionCounts (empty_prediction\<lparr>title := ttl, optionCount := of_nat (length opts),
                    createdAt := of_nat (block_timestamp e), creator := msg_sender e\<rparr>)) = 4"
    by (simp add: empty_prediction_def)
  show ?thesis
    unfolding createPrediction_def
    apply (simp only: chk if_False Let_def create_loop_closed[OF len m(2)])
    apply (simp add: fhe_defs Let_def)
    apply (simp add: created_state_def created_prediction_def create_ops_def empty_prediction_def Let_def suc_norm cong: if_cong)
    done
qed

lemma grantAccess_closed:
  assumes pid: "pid < length (predictions s)"
    and k4: "unat (optionCount (predictions s ! pid)) \<le> 4"
  shows "grantAccess e pid s =
     Inr (s\<lparr>substrate := (substrate s)\<lparr>oplog := oplog (substrate s) @
            grant_ops (msg_sender e) (predictions s ! pid) (bets s pid (msg_sender e))\<rparr>\<rparr>)"
  using pid
  by (simp add: grantAccess_def Let_def grant_loop_closed[OF k4] FHE_allow_def grant_ops_def)

lemma wf_nth: "wf_state s \<Longrightarrow> pid < length (predictions s) \<Longrightarrow> wf_prediction (predictions s ! pid)"
  by (simp add: wf_state_def)

lemma placeBet_Inr:
  assumes wf: "wf_state s" and ok: "placeBet e pid h ipf s = Inr s'"
  shows "\<exists>c. ipf = Attests c \<and> pid < length (predictions s) \<and> 0 < msg_value e \<and>
             msg_value e \<le> 2 ^ 64 - 1 \<and> \<not> exists (bets s pid (msg_sender e)) \<and>
             s' = bet_state e pid h c s"
proof -
  have pid: "pid < length (predictions s)"
    using ok by (auto simp: placeBet_def split: if_splits)
  have v: "0 < msg_value e" "msg_value e \<le> 2 ^ 64 - 1"
    using ok pid by (auto simp: placeBet_def split: if_splits)
  have fresh: "\<not> exists (bets s pid (msg_sender e))"
    using ok pid v by (auto simp: placeBet_def split: if_splits)
  have wfp: "wf_prediction (predictions s ! pid)"
    using wf pid by (rule wf_nth)
  show ?thesis
  proof (cases ipf)
    case Rejected
    have "placeBet e pid h Rejected s = Inl ProofRejected"
      using pid v fresh by (simp add: placeBet_def FHE_fromExternal_def)
    with ok Rejected show ?thesis by simp
  next
    case (Attests c)
    with ok placeBet_closed[OF pid v fresh wfp, of h c] pid v fresh show ?thesis by simp
  qed
qed

lemma createPrediction_Inr:
  assumes "createPrediction e ttl opts s = Inr r"
  shows "2 \<le> length opts \<and> length opts \<le> 4 \<and> r = (created_state e ttl opts s, length (predictions s))"
proof -
  have m: "2 \<le> length opts" "length opts \<le> 4"
    using assms by (auto simp: createPrediction_def split: if_splits)
  with assms createPrediction_closed[OF m, of e ttl s] show ?thesis by simp
qed

lemma grantAccess_Inr:
  assumes wf: "wf_state s" and ok: "grantAccess e pid s = Inr s'"
  shows "pid < length (predictions s) \<and> s' = granted_state e pid s"
proof -
  have pid: "pid < length (predictions s)"
    using ok by (auto simp: grantAccess_def split: if_splits)
  have "unat (optionCount (predictions s ! pid)) \<le> 4"
    using wf_nth[OF wf pid] by (simp add: wf_prediction_def)
  from grantAccess_closed[OF pid this, of e] ok pid show ?thesis
    by (simp add: granted_state_def)
qed

lemma getOptionCounts_closed:
  assumes pid: "pid < length (predictions s)" and wfp: "wf_prediction (predictions s ! pid)"
  shows "getOptionCounts pid s =
     Inr (take (unat (optionCount (predictions s ! pid))) (optionCounts (predictions s ! pid)))"
proof -
  let ?p = "predictions s ! pid"
  let ?k = "unat (optionCount ?p)"
  have k4: "?k \<le> 4" and len: "length (optionCounts ?p) = 4"
    using wfp by (simp_all add: wf_prediction_def)
  have "counts_loop 0 ?p (replicate ?k uninit) = Inr (map (\<lambda>j. optionCounts ?p ! j) [0..<?k])"
    using counts_loop_closed[OF k4, of "replicate ?k uninit" 0] by simp
  moreover have "map (\<lambda>j. optionCounts ?p ! j) [0..<?k] = take ?k (optionCounts ?p)"
    using k4 len by (simp add: list_eq_iff_nth_eq)
  ultimately show ?thesis
    using pid by (simp add: getOptionCounts_def Let_def)
qed


section \<open>Steps and well-formed states\<close>

text \<open>
  Every step is a revert, a creation, an accepted bet or a grant.  Well-formedness is
  preserved by each of them, so it holds in every reachable state, and the reachable states
  are the states at the end of a trace.
\<close>

lemma step_cases:
  assumes wf: "wf_state s"
  obtains (same) err where "run t s = Inl err" "step s t = s"
  | (created) e ttl opts where "t = CreatePrediction e ttl opts" "2 \<le> length opts" "length opts \<le> 4"
      "step s t = created_state e ttl opts s"
  | (bet) e pid h c where "t = PlaceBet e pid h (Attests c)" "pid < length (predictions s)"
      "0 < msg_value e" "msg_value e \<le> 2 ^ 64 - 1" "\<not> exists (bets s pid (msg_sender e))"
      "step s t = bet_state e pid h c s"
      "placeBet e pid h (Attests c) s = Inr (bet_state e pid h c s)"
  | (granted) e pid where "t = GrantAccess e pid" "pid < length (predictions s)"
      "step s t = granted_state e pid s"
proof (cases "run t s")
  case (Inl err)
  then have "step s t = s" by (simp add: step_def)
  with Inl show ?thesis by (rule same)
next
  case (Inr s')
  then have st: "step s t = s'" by (simp add: step_def)
  show ?thesis
  proof (cases t)
    case (CreatePrediction e ttl opts)
    with Inr obtain r where r: "createPrediction e ttl opts s = Inr r" "s' = fst r"
      by (cases "createPrediction e ttl opts s") (auto split: if_splits)
    from createPrediction_Inr[OF r(1)] r(2) st CreatePrediction show ?thesis
      by (intro created[of e ttl opts]) auto
  next
    case (PlaceBet e pid h ipf)
    with Inr have ok: "placeBet e pid h ipf s = Inr s'" by simp
    from placeBet_Inr[OF wf ok] obtain c where c: "ipf = Attests c"
      "pid < length (predictions s)" "0 < msg_value e" "msg_value e \<le> 2 ^ 64 - 1"
      "\<not> exists (bets s pid (msg_sender e))" "s' = bet_state e pid h c s"
      by blast
    show ?thesis
      using PlaceBet c st ok by (intro bet[of e pid h c]) simp_all
  next
    case (GrantAccess e pid)
    with Inr have "grantAccess e pid s = Inr s'" by (simp split: if_splits)
    from grantAccess_Inr[OF wf this] st GrantAccess show ?thesis
      by (auto intro: granted)
  qed
qed

lemma unat_of_nat8_le4: "m \<le> 4 \<Longrightarrow> unat (of_nat m :: 8 word) = m"
  by (simp add: unat_of_nat)

lemma wf_created_prediction:
  assumes "2 \<le> length opts" "length opts \<le> 4"
  shows "wf_prediction (created_prediction e ttl opts n)"
  using assms
  by (auto simp: wf_prediction_def created_prediction_def unat_of_nat8_le4 list_eq_iff_nth_eq)

lemma wf_bet_prediction:
  assumes "wf_prediction p"
  shows "wf_prediction (bet_prediction c v n p)"
  using assms
  by (auto simp: wf_prediction_def bet_prediction_def list_eq_iff_nth_eq)

lemma wf_step:
  assumes wf: "wf_state s"
  shows "wf_state (step s t)"
  using wf
proof (cases rule: step_cases[where t = t])
  case same
  with wf show ?thesis by simp
next
  case (created e ttl opts)
  with wf wf_created_prediction[of opts e ttl] show ?thesis
    by (auto simp: wf_state_def created_state_def Let_def)
next
  case (bet e pid h c)
  with wf wf_bet_prediction show ?thesis
    by (auto simp: wf_state_def bet_state_def Let_def dest!: set_update_subset_insert[THEN subsetD])
next
  case (granted e pid)
  with wf show ?thesis by (simp add: wf_state_def granted_state_def)
qed

lemma wf_init: "wf_state init_state"
  by (simp add: wf_state_def init_state_def)

lemma reachable_wf: "reachable s \<Longrightarrow> wf_state s"
  by (induction rule: reachable.induct) (simp_all add: wf_init wf_step)

lemma wf_foldl: "wf_state s \<Longrightarrow> wf_state (foldl step s txs)"
  by (induction txs arbitrary: s) (simp_all add: wf_step)

lemma length_predictions_step: "wf_state s \<Longrightarrow> length (predictions s) \<le> length (predictions (step s t))"
  by (cases rule: step_cases[where t = t and s = s])
     (auto simp: created_state_def bet_state_def granted_state_def Let_def)

lemma length_predictions_step_le:
  "wf_state s \<Longrightarrow> length (predictions (step s t)) \<le> Suc (length (predictions s))"
  by (cases rule: step_cases[where t = t and s = s])
     (auto simp: created_state_def bet_state_def granted_state_def Let_def)

lemma length_predictions_foldl:
  "wf_state s \<Longrightarrow> length (predictions s) \<le> length (predictions (foldl step s txs))"
proof (induction txs arbitrary: s)
  case Nil
  show ?case by simp
next
  case (Cons t txs)
  from Cons.IH[OF wf_step[OF Cons.prems], of t] length_predictions_step[OF Cons.prems, of t]
  show ?case by simp
qed

lemma reachable_foldl: "reachable s \<Longrightarrow> reachable (foldl step s txs)"
  by (induction txs arbitrary: s) (simp_all add: reachable.intros)

lemma reachable_iff_trace: "reachable s \<longleftrightarrow> (\<exists>txs. s = foldl step init_state txs)"
proof
  assume "reachable s"
  then show "\<exists>txs. s = foldl step init_state txs"
  proof (induction rule: reachable.induct)
    case reachable_init
    have "init_state = foldl step init_state []" by simp
    then show ?case by blast
  next
    case (reachable_step s t)
    then obtain txs where "s = foldl step init_state txs" by blast
    then have "step s t = foldl step init_state (txs @ [t])" by simp
    then show ?case by blast
  qed
next
  assume "\<exists>txs. s = foldl step init_state txs"
  then show "reachable s"
    by (auto intro: reachable_foldl reachable.intros)
qed

lemma placeBet_reachable:
  assumes "reachable s" and "pid < length (predictions s)"
    and "0 < msg_value e" and "msg_value e \<le> 2 ^ 64 - 1"
    and "\<not> exists (bets s pid (msg_sender e))"
  shows "placeBet e pid h (Attests c) s = Inr (bet_state e pid h c s)"
    and "step s (PlaceBet e pid h (Attests c)) = bet_state e pid h c s"
proof -
  have "wf_prediction (predictions s ! pid)"
    using reachable_wf[OF assms(1)] assms(2) by (rule wf_nth)
  from placeBet_closed[OF assms(2-5) this]
  show "placeBet e pid h (Attests c) s = Inr (bet_state e pid h c s)" .
  then show "step s (PlaceBet e pid h (Attests c)) = bet_state e pid h c s"
    by (simp add: step_def)
qed


section \<open>Bets are recorded once and kept\<close>

lemma bets_inv_step:
  assumes wf: "wf_state s" and inv: "bets_inv s"
  shows "bets_inv (step s t)"
  using wf
proof (cases rule: step_cases[where t = t])
  case same
  with inv show ?thesis by simp
next
  case (created e ttl opts)
  with inv show ?thesis
    by (simp add: bets_inv_def created_state_def Let_def)
next
  case (bet e pid h c)
  with inv show ?thesis
    by (auto simp: bets_inv_def bet_state_def Let_def)
next
  case (granted e pid)
  with inv show ?thesis by (simp add: bets_inv_def granted_state_def)
qed

lemma reachable_bets_inv: "reachable s \<Longrightarrow> bets_inv s"
proof (induction rule: reachable.induct)
  case reachable_init
  show ?case by (simp add: bets_inv_def init_state_def empty_bet_def)
next
  case (reachable_step s t)
  then show ?case by (simp add: bets_inv_step reachable_wf)
qed

lemma bet_kept_step:
  assumes wf: "wf_state s" and ex: "exists (bets s pid a)"
  shows "bets (step s t) pid a = bets s pid a"
  using wf
proof (cases rule: step_cases[where t = t])
  case same
  then show ?thesis by simp
next
  case (created e ttl opts)
  then show ?thesis by (simp add: created_state_def Let_def)
next
  case (bet e q h c)
  with ex show ?thesis by (auto simp: bet_state_def Let_def)
next
  case (granted e q)
  then show ?thesis by (simp add: granted_state_def)
qed

lemma bet_kept:
  assumes "wf_state s" and "exists (bets s pid a)"
  shows "bets (foldl step s txs) pid a = bets s pid a"
  using assms
proof (induction txs arbitrary: s)
  case Nil
  show ?case by simp
next
  case (Cons t txs)
  have keep: "bets (step s t) pid a = bets s pid a"
    using Cons.prems by (rule bet_kept_step)
  with Cons.prems have "exists (bets (step s t) pid a)" by simp
  with Cons.IH[OF wf_step[OF Cons.prems(1)]] keep show ?case by simp
qed


section \<open>Grants\<close>

lemma grants_append: "grants (f\<lparr>oplog := oplog f @ ops\<rparr>) = grants f \<union> {(h, p). OpAllow h p \<in> set ops}"
  by (auto simp: grants_def allowed_def)

lemma grant_ops_set:
  assumes "unat (optionCount p) \<le> length (optionCounts p)"
  shows "{(h, q). OpAllow h q \<in> set (grant_ops who p b)} =
     (\<lambda>h. (h, Account who)) `
       ({hid (totalStaked p), hid (totalBets p)} \<union>
        hid ` set (take (unat (optionCount p)) (optionCounts p)) \<union>
        (if exists b then {hid (choice b), hid (amount b)} else {}))"
proof -
  have "take (unat (optionCount p)) (optionCounts p) =
      map (\<lambda>j. optionCounts p ! j) [0..<unat (optionCount p)]"
    using assms by (simp add: list_eq_iff_nth_eq)
  then have "set (take (unat (optionCount p)) (optionCounts p)) =
      (\<lambda>j. optionCounts p ! j) ` {0..<unat (optionCount p)}"
    by simp
  then show ?thesis
    by (auto simp: grant_ops_def image_iff)
qed

lemma allowed_grants: "allowed f h p \<longleftrightarrow> (h, p) \<in> grants f"
  by (simp add: grants_def)


section \<open>The zero handle never reaches the substrate\<close>

lemma handles_used_append:
  "handles_used (f\<lparr>oplog := oplog f @ ops\<rparr>) = handles_used f \<union> (\<Union>x \<in> set ops. set (op_handles x))"
  by (auto simp: handles_used_def)

lemma handles_used_make:
  "handles_used \<lparr>nextHandle = n, oplog = oplog f @ ops\<rparr> =
     handles_used f \<union> (\<Union>x \<in> set ops. set (op_handles x))"
  by (auto simp: handles_used_def)

lemma create_ops_handles: "Uninit \<notin> (\<Union>x \<in> set (create_ops m n). set (op_handles x))"
  by (auto simp: create_ops_def)

lemma live_nth:
  assumes "Uninit \<notin> live_handles p"
    and "unat (optionCount p) \<le> length (optionCounts p)"
    and "i < unat (optionCount p)"
  shows "Uninit \<noteq> hid (optionCounts p ! i)"
proof -
  have "optionCounts p ! i \<in> set (take (unat (optionCount p)) (optionCounts p))"
    using assms(2,3) by (metis length_take min.absorb2 nth_mem nth_take)
  then have "hid (optionCounts p ! i) \<in> live_handles p"
    by (simp add: live_handles_def)
  with assms(1) show ?thesis by metis
qed

lemma bet_ops_handles:
  assumes "Uninit \<notin> live_handles p" and "unat (optionCount p) \<le> length (optionCounts p)"
  shows "Uninit \<notin> (\<Union>x \<in> set (bet_ops who v h n p). set (op_handles x))"
proof -
  have "hid (totalStaked p) \<noteq> Uninit" "hid (totalBets p) \<noteq> Uninit"
    using assms(1) by (auto simp: live_handles_def)
  moreover have "\<And>i. i < unat (optionCount p) \<Longrightarrow> Uninit \<noteq> hid (optionCounts p ! i)"
    using assms by (rule live_nth)
  ultimately show ?thesis
    by (auto simp: bet_ops_def slot_ops_def)
qed

lemma grant_ops_handles:
  assumes "Uninit \<notin> live_handles p" and "unat (optionCount p) \<le> length (optionCounts p)"
    and "exists b \<longrightarrow> hid (choice b) \<noteq> Uninit \<and> hid (amount b) \<noteq> Uninit"
  shows "Uninit \<notin> (\<Union>x \<in> set (grant_ops who p b). set (op_handles x))"
proof -
  have "hid (totalStaked p) \<noteq> Uninit" "hid (totalBets p) \<noteq> Uninit"
    using assms(1) by (auto simp: live_handles_def)
  moreover have "\<And>i. i < unat (optionCount p) \<Longrightarrow> Uninit \<noteq> hid (optionCounts p ! i)"
    using assms(1,2) by (rule live_nth)
  ultimately show ?thesis
    using assms(3) by (auto simp: grant_ops_def)
qed

lemma live_created:
  assumes "length opts \<le> 4"
  shows "Uninit \<notin> live_handles (created_prediction e ttl opts n)"
proof -
  let ?p = "created_prediction e ttl opts n"
  have k: "unat (optionCount ?p) = length opts"
    using assms by (simp add: created_prediction_def unat_of_nat8_le4)
  have "take (length opts)
       (map (\<lambda>j. if j < length opts then Enc (Computed (n + j)) 0 else uninit) [0..<4]) =
     map (\<lambda>j. if j < length opts then Enc (Computed (n + j)) 0 else (uninit :: euint32))
       [0..<length opts]"
    using assms by (simp add: take_map)
  also have "\<dots> = map (\<lambda>j. Enc (Computed (n + j)) (0 :: 32 word)) [0..<length opts]"
    by (rule map_cong) simp_all
  finally have oc: "take (length opts) (optionCounts ?p) =
     map (\<lambda>j. Enc (Computed (n + j)) (0 :: 32 word)) [0..<length opts]"
    by (simp add: created_prediction_def)
  have "Uninit \<notin> hid ` set (map (\<lambda>j. Enc (Computed (n + j)) (0 :: 32 word)) [0..<length opts])"
    by auto
  moreover have "hid (totalStaked ?p) \<noteq> Uninit" "hid (totalBets ?p) \<noteq> Uninit"
    by (simp_all add: created_prediction_def)
  ultimately show ?thesis
    unfolding live_handles_def k oc by auto
qed

lemma live_bet: 
  assumes "unat (optionCount p) \<le> 4"
  shows "Uninit \<notin> live_handles (bet_prediction c v n p)"
proof -
  have "take (unat (optionCount p))
      (map (\<lambda>i. if i < unat (optionCount p)
                  then Enc (Computed (n + 6 + 4 * i + 3))
                         (plain (optionCounts p ! i) + (if c = of_nat i then 1 else 0))
                  else optionCounts p ! i) [0..<4]) =
     map (\<lambda>i. Enc (Computed (n + 6 + 4 * i + 3))
                 (plain (optionCounts p ! i) + (if c = of_nat i then 1 else 0)))
       [0..<unat (optionCount p)]"
    using assms by (simp add: list_eq_iff_nth_eq)
  then show ?thesis
    by (auto simp: live_handles_def bet_prediction_def)
qed

lemma init_inv_step:
  assumes wf: "wf_state s" and inv: "init_inv s"
  shows "init_inv (step s t)"
  using wf
proof (cases rule: step_cases[where t = t])
  case (same err)
  with inv show ?thesis by simp
next
  case (created e ttl opts)
  with inv create_ops_handles live_created[OF created(3)] show ?thesis
    by (auto simp: init_inv_def created_state_def Let_def handles_used_make)
next
  case (bet e pid h c)
  have wfp: "wf_prediction (predictions s ! pid)" using wf bet(2) by (rule wf_nth)
  then have k: "unat (optionCount (predictions s ! pid)) \<le> 4"
    "unat (optionCount (predictions s ! pid)) \<le> length (optionCounts (predictions s ! pid))"
    by (simp_all add: wf_prediction_def)
  have live: "Uninit \<notin> live_handles (predictions s ! pid)"
    using inv bet(2) by (simp add: init_inv_def)
  have a: "Uninit \<notin> handles_used (substrate (step s t))"
    using inv bet_ops_handles[OF live k(2)]
    by (simp add: bet(6) bet_state_def Let_def handles_used_make init_inv_def)
  have b: "\<forall>p \<in> set (predictions (step s t)). Uninit \<notin> live_handles p"
    using inv live_bet[OF k(1)]
    by (auto simp: bet(6) bet_state_def Let_def init_inv_def
        dest!: set_update_subset_insert[THEN subsetD])
  have c: "\<forall>q a. exists (bets (step s t) q a) \<longrightarrow>
        hid (choice (bets (step s t) q a)) \<noteq> Uninit \<and> hid (amount (bets (step s t) q a)) \<noteq> Uninit"
    using inv by (auto simp: bet(6) bet_state_def Let_def init_inv_def)
  from a b c show ?thesis by (simp add: init_inv_def)
next
  case (granted e pid)
  have wfp: "wf_prediction (predictions s ! pid)" using wf granted(2) by (rule wf_nth)
  then have k: "unat (optionCount (predictions s ! pid)) \<le> length (optionCounts (predictions s ! pid))"
    by (simp add: wf_prediction_def)
  have live: "Uninit \<notin> live_handles (predictions s ! pid)"
    using inv granted(2) by (simp add: init_inv_def)
  have "exists (bets s pid (msg_sender e)) \<longrightarrow>
      hid (choice (bets s pid (msg_sender e))) \<noteq> Uninit \<and>
      hid (amount (bets s pid (msg_sender e))) \<noteq> Uninit"
    using inv by (simp add: init_inv_def)
  from grant_ops_handles[OF live k this] inv show ?thesis
    by (simp add: granted(3) granted_state_def init_inv_def handles_used_append)
qed

lemma reachable_init_inv: "reachable s \<Longrightarrow> init_inv s"
proof (induction rule: reachable.induct)
  case reachable_init
  show ?case by (simp add: init_inv_def init_state_def handles_used_def empty_bet_def)
next
  case (reachable_step s t)
  then show ?case by (simp add: init_inv_step reachable_wf)
qed


section \<open>The ledger of accepted bets\<close>

text \<open>
  An accepted bet moves \<^verbatim>\<open>totalBets\<close> by one, \<^verbatim>\<open>totalStaked\<close> by its stake, and the sum of the
  counters by one exactly when its choice is below \<^verbatim>\<open>optionCount\<close>; nothing else moves them.
\<close>

lemma bet_of_failed: "run t s = Inl err \<Longrightarrow> bet_of pid s t = []"
  by (cases "(pid, s, t)" rule: bet_of.cases) auto

lemma bet_of_unknown: "length (predictions s) \<le> pid \<Longrightarrow> bet_of pid s t = []"
  by (cases "(pid, s, t)" rule: bet_of.cases) (auto simp: placeBet_def)

lemma bet_of_length: "length (bet_of pid s t) \<le> 1"
  by (cases "(pid, s, t)" rule: bet_of.cases) auto

lemma accepted_bets_append:
  "accepted_bets pid s (txs @ [t]) = accepted_bets pid s txs @ bet_of pid (foldl step s txs) t"
  by (induction txs arbitrary: s) simp_all

lemma choice_hits_once:
  "k \<le> 256 \<Longrightarrow>
   sum_list (map (\<lambda>i. if c = (of_nat i :: 8 word) then 1 else 0) [0..<k]) =
     (if unat c < k then 1 else (0 :: 32 word))"
proof (induction k)
  case 0
  show ?case by simp
next
  case (Suc k)
  then have k: "k < 256" by simp
  have eq: "c = (of_nat k :: 8 word) \<longleftrightarrow> unat c = k"
  proof
    assume "c = of_nat k"
    then show "unat c = k" using k by (simp add: unat_of_nat)
  next
    assume "unat c = k"
    then have "of_nat (unat c) = (of_nat k :: 8 word)" by simp
    then show "c = of_nat k" by simp
  qed
  from Suc k show ?case
    by (auto simp: eq)
qed

lemma counts_sum_bet_prediction:
  assumes wfp: "wf_prediction p"
  shows "counts_sum (bet_prediction c v n p) =
     counts_sum p + (if unat c < unat (optionCount p) then 1 else 0)"
proof -
  let ?k = "unat (optionCount p)"
  let ?d = "\<lambda>i. if c = (of_nat i :: 8 word) then 1 else (0 :: 32 word)"
  have k4: "?k \<le> 4" and len: "length (optionCounts p) = 4"
    using wfp by (simp_all add: wf_prediction_def)
  have old: "map plain (take ?k (optionCounts p)) = map (\<lambda>i. plain (optionCounts p ! i)) [0..<?k]"
    using k4 len by (simp add: list_eq_iff_nth_eq)
  have new: "map plain (take ?k (optionCounts (bet_prediction c v n p))) =
      map (\<lambda>i. plain (optionCounts p ! i) + ?d i) [0..<?k]"
    using k4 len by (simp add: list_eq_iff_nth_eq bet_prediction_def)
  have "counts_sum (bet_prediction c v n p) =
      sum_list (map (\<lambda>i. plain (optionCounts p ! i) + ?d i) [0..<?k])"
    unfolding counts_sum_def using new by (simp add: bet_prediction_def)
  also have "\<dots> = sum_list (map (\<lambda>i. plain (optionCounts p ! i)) [0..<?k]) +
      sum_list (map ?d [0..<?k])"
    by (rule sum_list_addf)
  also have "sum_list (map (\<lambda>i. plain (optionCounts p ! i)) [0..<?k]) = counts_sum p"
    unfolding counts_sum_def old ..
  also have "sum_list (map ?d [0..<?k]) = (if unat c < ?k then 1 else 0)"
    using k4 by (intro choice_hits_once) simp
  finally show ?thesis .
qed

lemma sum_list_all_zero:
  "(\<And>x. x \<in> set xs \<Longrightarrow> f x = 0) \<Longrightarrow> sum_list (map f xs) = (0 :: 32 word)"
  by (induction xs) auto

lemma created_state_aggregates:
  assumes "2 \<le> length opts" "length opts \<le> 4"
  shows "plain (totalBets (predictions (created_state e ttl opts s) ! length (predictions s))) = 0"
    and "plain (totalStaked (predictions (created_state e ttl opts s) ! length (predictions s))) = 0"
    and "counts_sum (predictions (created_state e ttl opts s) ! length (predictions s)) = 0"
proof -
  have new: "predictions (created_state e ttl opts s) ! length (predictions s) =
      created_prediction e ttl opts (nextHandle (substrate s))"
    by (simp add: created_state_def Let_def)
  show "plain (totalBets (predictions (created_state e ttl opts s) ! length (predictions s))) = 0"
    and "plain (totalStaked (predictions (created_state e ttl opts s) ! length (predictions s))) = 0"
    unfolding new by (simp_all add: created_prediction_def)
  have "x \<in> set (take m (map (\<lambda>j. if j < length opts then Enc (Computed (n + j)) 0 else uninit) [0..<4]))
      \<Longrightarrow> plain x = (0 :: 32 word)" for x m n
    by (auto dest!: in_set_takeD simp: uninit_def)
  then show "counts_sum (predictions (created_state e ttl opts s) ! length (predictions s)) = 0"
    unfolding new counts_sum_def
    by (intro sum_list_all_zero) (simp add: created_prediction_def)
qed

lemma of_nat_filter_eq:
  fixes xs :: "'b list"
  assumes "length xs < 2 ^ 32"
  shows "(of_nat (length (filter P xs)) :: 32 word) = of_nat (length xs) \<longleftrightarrow>
         (\<forall>x \<in> set xs. P x)"
proof
  assume eq: "(of_nat (length (filter P xs)) :: 32 word) = of_nat (length xs)"
  have small: "length (filter P xs) < 2 ^ 32"
    by (rule le_less_trans[OF length_filter_le assms])
  from eq have "unat (of_nat (length (filter P xs)) :: 32 word) = unat (of_nat (length xs) :: 32 word)"
    by simp
  then have "length (filter P xs) = length xs"
    using assms small by (simp add: unat_of_nat)
  then show "\<forall>x \<in> set xs. P x"
    using length_filter_less[of _ xs P] by (metis less_irrefl)
next
  assume "\<forall>x \<in> set xs. P x"
  then have "filter P xs = xs" by (simp add: filter_id_conv)
  then show "(of_nat (length (filter P xs)) :: 32 word) = of_nat (length xs)" by simp
qed

lemma unat_add_of_nat:
  fixes a :: "'a::len word"
  assumes "unat a + n < 2 ^ LENGTH('a)"
  shows "unat (a + of_nat n) = unat a + n"
proof -
  have "n < 2 ^ LENGTH('a)" using assms by simp
  then have "unat (of_nat n :: 'a word) = n" by (simp add: unat_of_nat)
  then show ?thesis using assms by (simp add: unat_word_ariths)
qed

lemma ledger_step:
  assumes wf: "wf_state s" and pid: "pid < length (predictions s)"
  shows "optionCount (predictions (step s t) ! pid) = optionCount (predictions s ! pid) \<and>
         plain (totalBets (predictions (step s t) ! pid)) =
           plain (totalBets (predictions s ! pid)) + of_nat (length (bet_of pid s t)) \<and>
         plain (totalStaked (predictions (step s t) ! pid)) =
           plain (totalStaked (predictions s ! pid)) + of_nat (sum_list (map snd (bet_of pid s t))) \<and>
         counts_sum (predictions (step s t) ! pid) =
           counts_sum (predictions s ! pid) +
           of_nat (length (filter (in_range (unat (optionCount (predictions s ! pid))))
                     (bet_of pid s t)))"
  using wf
proof (cases rule: step_cases[where t = t])
  case (same err)
  then show ?thesis by (simp add: bet_of_failed)
next
  case (created e ttl opts)
  then show ?thesis
    using pid by (simp add: created_state_def Let_def nth_append)
next
  case (bet e q h c)
  show ?thesis
  proof (cases "q = pid")
    case True
    have wfp: "wf_prediction (predictions s ! pid)"
      using wf pid by (rule wf_nth)
    have new: "predictions (step s t) ! pid =
        bet_prediction c (msg_value e) (nextHandle (substrate s)) (predictions s ! pid)"
      using bet True pid by (simp add: bet_state_def Let_def)
    have b: "bet_of pid s t = [(c, msg_value e)]"
      using bet True by simp
    show ?thesis
      unfolding new b counts_sum_bet_prediction[OF wfp]
      by (simp add: bet_prediction_def in_range_def)
  next
    case False
    with bet pid show ?thesis
      by (simp add: bet_state_def Let_def)
  qed
next
  case (granted e q)
  then show ?thesis by (simp add: granted_state_def)
qed

lemma ledger_from:
  assumes "wf_state s" and "pid < length (predictions s)"
  shows "optionCount (predictions (foldl step s txs) ! pid) = optionCount (predictions s ! pid) \<and>
         plain (totalBets (predictions (foldl step s txs) ! pid)) =
           plain (totalBets (predictions s ! pid)) + of_nat (length (accepted_bets pid s txs)) \<and>
         plain (totalStaked (predictions (foldl step s txs) ! pid)) =
           plain (totalStaked (predictions s ! pid)) +
           of_nat (sum_list (map snd (accepted_bets pid s txs))) \<and>
         counts_sum (predictions (foldl step s txs) ! pid) =
           counts_sum (predictions s ! pid) +
           of_nat (length (filter (in_range (unat (optionCount (predictions s ! pid))))
                     (accepted_bets pid s txs)))"
  using assms
proof (induction txs arbitrary: s)
  case Nil
  show ?case by simp
next
  case (Cons t txs)
  have wf': "wf_state (step s t)" using Cons.prems(1) by (rule wf_step)
  have pid': "pid < length (predictions (step s t))"
    using length_predictions_step[OF Cons.prems(1), of t] Cons.prems(2) by simp
  note one = ledger_step[OF Cons.prems, of t]
  note rest = Cons.IH[OF wf' pid']
  show ?case
    using one rest by (simp add: algebra_simps)
qed

lemma ledger_fresh:
  assumes "wf_state s" and "length (predictions s) \<le> pid"
    and "pid < length (predictions (foldl step s txs))"
  shows "plain (totalBets (predictions (foldl step s txs) ! pid)) =
           of_nat (length (accepted_bets pid s txs)) \<and>
         plain (totalStaked (predictions (foldl step s txs) ! pid)) =
           of_nat (sum_list (map snd (accepted_bets pid s txs))) \<and>
         counts_sum (predictions (foldl step s txs) ! pid) =
           of_nat (length (filter
             (in_range (unat (optionCount (predictions (foldl step s txs) ! pid))))
             (accepted_bets pid s txs)))"
  using assms
proof (induction txs arbitrary: s)
  case Nil
  then show ?case by simp
next
  case (Cons t txs)
  have wf': "wf_state (step s t)" using Cons.prems(1) by (rule wf_step)
  have none: "bet_of pid s t = []" using Cons.prems(2) by (rule bet_of_unknown)
  show ?case
  proof (cases "pid < length (predictions (step s t))")
    case False
    then have "length (predictions (step s t)) \<le> pid" by simp
    from Cons.IH[OF wf' this] Cons.prems(3) none show ?thesis by simp
  next
    case True
    have here: "pid = length (predictions s)"
      using True Cons.prems(2) length_predictions_step_le[OF Cons.prems(1), of t] by simp
    have zero: "plain (totalBets (predictions (step s t) ! pid)) = 0 \<and>
        plain (totalStaked (predictions (step s t) ! pid)) = 0 \<and>
        counts_sum (predictions (step s t) ! pid) = 0"
      using Cons.prems(1)
    proof (cases rule: step_cases[where t = t])
      case (same err)
      with True Cons.prems(2) show ?thesis by simp
    next
      case (created e ttl opts)
      then show ?thesis
        unfolding here by (simp add: created_state_aggregates)
    next
      case (bet e q h c)
      with True Cons.prems(2) show ?thesis by (simp add: bet_state_def Let_def)
    next
      case (granted e q)
      with True Cons.prems(2) show ?thesis by (simp add: granted_state_def)
    qed
    from ledger_from[OF wf' True, of txs] zero none show ?thesis by simp
  qed
qed


section \<open>A bet with another choice has the same shape\<close>

lemma bet_prediction_shape:
  "prediction_shape (bet_prediction c v n p) = prediction_shape (bet_prediction c' v n p)"
  by (simp add: prediction_shape_def bet_prediction_def if_distrib[of hid] cong: if_cong)

lemma bet_state_shape:
  "substrate (bet_state e pid h c s) = substrate (bet_state e pid h c' s)"
  "events (bet_state e pid h c s) = events (bet_state e pid h c' s)"
  "map prediction_shape (predictions (bet_state e pid h c s)) =
     map prediction_shape (predictions (bet_state e pid h c' s))"
  "bet_shape (bets (bet_state e pid h c s) q a) = bet_shape (bets (bet_state e pid h c' s) q a)"
  by (simp_all add: bet_state_def Let_def map_update bet_prediction_shape[of c _ _ _ c']
      bet_shape_def)


section \<open>Facts about the scenario\<close>

lemma upt_0_4: "[0..<4] = [0, 1, 2, 3]"
  by (simp add: upt_rec)

lemma upt_0_2: "[0..<2] = [0, 1]"
  by (simp add: upt_rec)

lemma take_2_of_4: "take 2 [a, b, c, d] = [a, b]"
  by (simp add: numeral_2_eq_2)

lemma ctx_sel: "msg_sender (ctx a v) = a" "msg_value (ctx a v) = v"
  by (simp_all add: ctx_def)

lemma market_created_closed:
  "market_created = created_state (ctx alice 0) ''A or B'' [''A'', ''B''] init_state"
  by (simp add: market_created_def step_def createPrediction_closed ctx_def)

lemma market_created_predictions: "predictions market_created = [fresh_market]"
  by (simp add: market_created_closed created_state_def created_prediction_def fresh_market_def
      init_state_def ctx_def upt_0_4 Let_def)

lemma market_created_bets: "bets market_created = (\<lambda>_ _. empty_bet)"
  by (simp add: market_created_closed created_state_def init_state_def Let_def)

lemma market_created_next: "nextHandle (substrate market_created) = 4"
  by (simp add: market_created_closed created_state_def init_state_def Let_def)

lemma market_created_oplog: "oplog (substrate market_created) = create_ops 2 0"
  by (simp add: market_created_closed created_state_def init_state_def Let_def
      numeral_2_eq_2[symmetric])

lemma reachable_market_created: "reachable market_created"
  unfolding market_created_def by (intro reachable.intros)

lemma wf_fresh_market: "wf_prediction fresh_market"
proof -
  have "replicate 2 (uninit :: euint32) = [uninit, uninit]"
    by (simp add: numeral_2_eq_2)
  then show ?thesis
    by (simp add: wf_prediction_def fresh_market_def)
qed

lemma alice_placeBet:
  "placeBet (ctx alice 10) 0 7 (Attests 0) market_created =
     Inr (bet_state (ctx alice 10) 0 7 0 market_created)"
  by (rule placeBet_closed)
     (simp_all add: market_created_predictions market_created_bets ctx_def empty_bet_def
        wf_fresh_market)

lemma alice_bet_closed: "alice_bet = bet_state (ctx alice 10) 0 7 0 market_created"
  by (simp add: alice_bet_def step_def alice_placeBet)

lemma reachable_alice_bet: "reachable alice_bet"
  unfolding alice_bet_def by (intro reachable.intros reachable_market_created)

lemma alice_bet_predictions:
  "predictions alice_bet =
     [fresh_market\<lparr>totalStaked := Enc (Computed 5) 10, totalBets := Enc (Computed 7) 1,
        optionCounts := [Enc (Computed 13) 1, Enc (Computed 17) 0, uninit, uninit]\<rparr>]"
  by (simp add: alice_bet_closed bet_state_def bet_prediction_def market_created_predictions
      market_created_next fresh_market_def ctx_def upt_0_4 Let_def)

lemma alice_bet_bets:
  "bets alice_bet 0 alice =
     \<lparr>choice = Enc (Input 7) 0, amount = Enc (Computed 4) 10, exists = True\<rparr>"
  "bets alice_bet 0 bob = empty_bet"
  by (simp_all add: alice_bet_closed bet_state_def market_created_bets market_created_next
      ctx_def alice_def bob_def Let_def)

lemma alice_bet_next: "nextHandle (substrate alice_bet) = 18"
  by (simp add: alice_bet_closed bet_state_def market_created_next market_created_predictions
      fresh_market_def Let_def)

lemma alice_bet_oplog:
  "oplog (substrate alice_bet) = create_ops 2 0 @ bet_ops alice 10 7 4 fresh_market"
  by (simp add: alice_bet_closed bet_state_def market_created_oplog market_created_next
      market_created_predictions ctx_def Let_def)

lemma alice_bet_no_input_grant: "\<not> allowed (substrate alice_bet) (Input 7) (Account bob)"
  by (simp add: allowed_def alice_bet_oplog create_ops_def bet_ops_def slot_ops_def fresh_market_def
      upt_0_2 alice_def bob_def)

lemma both_bet_closed: "both_bet = bet_state (ctx bob 20) 0 8 1 alice_bet"
  unfolding both_bet_def
  by (rule placeBet_reachable(2)[OF reachable_alice_bet])
     (simp_all add: alice_bet_predictions alice_bet_bets empty_bet_def ctx_def)

lemma reachable_both_bet: "reachable both_bet"
  unfolding both_bet_def by (intro reachable.intros reachable_alice_bet)

lemma both_bet_predictions:
  "predictions both_bet =
     [fresh_market\<lparr>totalStaked := Enc (Computed 19) 30, totalBets := Enc (Computed 21) 2,
        optionCounts := [Enc (Computed 27) 1, Enc (Computed 31) 1, uninit, uninit]\<rparr>]"
  by (simp add: both_bet_closed bet_state_def bet_prediction_def alice_bet_predictions
      alice_bet_next fresh_market_def ctx_def upt_0_4 Let_def)

lemma stray_bet_closed: "stray_bet = bet_state (ctx bob 20) 0 8 2 alice_bet"
  unfolding stray_bet_def
  by (rule placeBet_reachable(2)[OF reachable_alice_bet])
     (simp_all add: alice_bet_predictions alice_bet_bets empty_bet_def ctx_def)

lemma reachable_stray_bet: "reachable stray_bet"
  unfolding stray_bet_def by (intro reachable.intros reachable_alice_bet)

lemma stray_bet_predictions:
  "predictions stray_bet =
     [fresh_market\<lparr>totalStaked := Enc (Computed 19) 30, totalBets := Enc (Computed 21) 2,
        optionCounts := [Enc (Computed 27) 1, Enc (Computed 31) 0, uninit, uninit]\<rparr>]"
  by (simp add: stray_bet_closed bet_state_def bet_prediction_def alice_bet_predictions
      alice_bet_next fresh_market_def ctx_def upt_0_4 Let_def)

lemma market_trace_state: "foldl step init_state market_trace = alice_bet"
  by (simp add: market_trace_def alice_bet_def market_created_def)

lemma market_trace_bets: "accepted_bets 0 init_state market_trace = [(0, 10)]"
proof -
  have "msg_value (ctx alice 10) = 10" by (simp add: ctx_def)
  then have "bet_of 0 market_created (PlaceBet (ctx alice 10) 0 7 (Attests 0)) = [(0, 10)]"
    by (simp add: alice_placeBet)
  moreover have "bet_of 0 init_state (CreatePrediction (ctx alice 0) ''A or B'' [''A'', ''B'']) = []"
    by simp
  ultimately show ?thesis
    by (simp add: market_trace_def market_created_def[symmetric] del: bet_of.simps)
qed

lemma bob_bets:
  "bet_of 0 alice_bet (PlaceBet (ctx bob 20) 0 8 (Attests c)) = [(c, 20)]"
proof -
  have "placeBet (ctx bob 20) 0 8 (Attests c) alice_bet =
      Inr (bet_state (ctx bob 20) 0 8 c alice_bet)"
    by (rule placeBet_reachable(1)[OF reachable_alice_bet])
       (simp_all add: alice_bet_predictions alice_bet_bets empty_bet_def ctx_def)
  moreover have "msg_value (ctx bob 20) = 20" by (simp add: ctx_def)
  ultimately show ?thesis by simp
qed

lemma reachable_max_bet: "reachable max_bet"
  unfolding max_bet_def by (intro reachable.intros reachable_market_created)

lemma max_bet_closed: "max_bet = bet_state (ctx alice (2 ^ 64 - 1)) 0 7 0 market_created"
  unfolding max_bet_def
  by (rule placeBet_reachable(2)[OF reachable_market_created])
     (simp_all add: market_created_predictions market_created_bets empty_bet_def ctx_sel)

lemma max_bet_total:
  "length (predictions max_bet) = 1"
  "plain (totalStaked (predictions max_bet ! 0)) = 2 ^ 64 - 1"
  "\<not> exists (bets max_bet 0 bob)"
  by (simp_all add: max_bet_closed bet_state_def bet_prediction_def market_created_predictions
      market_created_bets fresh_market_def empty_bet_def ctx_sel alice_def bob_def Let_def)

lemma wrapped_bet_closed: "wrapped_bet = bet_state (ctx bob 1) 0 8 1 max_bet"
  unfolding wrapped_bet_def
  by (rule placeBet_reachable(2)[OF reachable_max_bet])
     (simp_all add: max_bet_total ctx_sel)


lemma crowd_Suc: "crowd (Suc n) = crowd n @ [PlaceBet (ctx (of_nat n) 1) 0 n (Attests 0)]"
  by (simp add: crowd_def)

lemma voters_differ:
  assumes "i < n" and "n < 2 ^ 160"
  shows "(of_nat n :: address) \<noteq> of_nat i"
proof
  assume "(of_nat n :: address) = of_nat i"
  then have "unat (of_nat n :: address) = unat (of_nat i :: address)" by simp
  then have "n mod 2 ^ 160 = i mod 2 ^ 160" by (simp add: unat_of_nat)
  with assms show False by simp
qed

lemma crowd_bets:
  assumes "n \<le> 2 ^ 160"
  shows "(\<forall>a. exists (bets (foldl step market_created (crowd n)) 0 a) \<longleftrightarrow>
              (\<exists>i<n. a = of_nat i)) \<and>
         length (accepted_bets 0 market_created (crowd n)) = n"
  using assms
proof (induction n)
  case 0
  show ?case by (simp add: crowd_def market_created_bets empty_bet_def)
next
  case (Suc n)
  let ?s = "foldl step market_created (crowd n)"
  let ?e = "ctx (of_nat n) 1"
  let ?t = "PlaceBet ?e 0 n (Attests 0)"
  from Suc have IH: "\<forall>a. exists (bets ?s 0 a) \<longleftrightarrow> (\<exists>i<n. a = of_nat i)"
    and len: "length (accepted_bets 0 market_created (crowd n)) = n"
    and n: "n < 2 ^ 160"
    by simp_all
  have reach: "reachable ?s"
    using reachable_market_created by (rule reachable_foldl)
  have pid: "0 < length (predictions ?s)"
    using length_predictions_foldl[OF reachable_wf[OF reachable_market_created], of "crowd n"]
    by (auto simp: market_created_predictions)
  have fresh: "\<not> exists (bets ?s 0 (msg_sender ?e))"
    using IH voters_differ[OF _ n] by (auto simp: ctx_sel)
  have v: "0 < msg_value ?e" "msg_value ?e \<le> 2 ^ 64 - 1"
    by (simp_all add: ctx_sel)
  note ok = placeBet_reachable[OF reach pid v fresh, of n 0]
  have b: "bet_of 0 ?s ?t = [(0, msg_value ?e)]"
    using ok(1) by simp
  have bets': "exists (bets (step ?s ?t) 0 a) \<longleftrightarrow> a = of_nat n \<or> exists (bets ?s 0 a)" for a
    unfolding ok(2) by (simp add: bet_state_def Let_def ctx_sel)
  have "\<forall>a. exists (bets (foldl step market_created (crowd (Suc n))) 0 a) \<longleftrightarrow>
              (\<exists>i<Suc n. a = of_nat i)"
    unfolding crowd_Suc using bets' IH by (auto simp: less_Suc_eq)
  moreover have "length (accepted_bets 0 market_created (crowd (Suc n))) = Suc n"
    unfolding crowd_Suc accepted_bets_append b using len by simp
  ultimately show ?case by blast
qed

lemma crowded_closed: "crowded = foldl step market_created (crowd (2 ^ 32))"
  by (simp add: crowded_def crowd_trace_def market_created_def)

lemma reachable_crowded: "reachable crowded"
  unfolding crowded_closed using reachable_market_created by (rule reachable_foldl)

lemma crowd_trace_bets: "length (accepted_bets 0 init_state crowd_trace) = 2 ^ 32"
proof -
  have "accepted_bets 0 init_state crowd_trace = accepted_bets 0 market_created (crowd (2 ^ 32))"
    by (simp add: crowd_trace_def market_created_def)
  moreover have "length (accepted_bets 0 market_created (crowd (2 ^ 32))) = 2 ^ 32"
    using crowd_bets[of "2 ^ 32"] by simp
  ultimately show ?thesis by simp
qed


section \<open>Claims\<close>

subsection \<open>Sum of the option counters\<close>

text \<open>
  C1 as stated fails.  The claim is that the counters of a market always sum to
  \<^verbatim>\<open>totalBets\<close>, also after bets whose encrypted choice is out of range.  On the two-option
  market of the scenario Alice bets option 0 and Bob's accepted bet carries the choice 2:
  no counter moves for Bob, so the counters sum to 1 while \<^verbatim>\<open>totalBets\<close> is 2.
\<close>

theorem stray_bet_breaks_sum:
  "reachable stray_bet \<and>
   counts_sum (predictions stray_bet ! 0) = 1 \<and>
   plain (totalBets (predictions stray_bet ! 0)) = 2"
  using reachable_stray_bet
  by (simp add: stray_bet_predictions counts_sum_def fresh_market_def take_2_of_4)

text \<open>
  C1, amended.  For every trace of transactions from the initial state and every market
  that exists at its end, the sum (modulo \<open>2^32\<close>) of the plaintext-equivalent values of
  \<^verbatim>\<open>optionCounts[0..optionCount)\<close> is the number of accepted bets on that market whose choice
  is below \<^verbatim>\<open>optionCount\<close>, and \<^verbatim>\<open>totalBets\<close> is the number of all accepted bets on it,
  modulo \<open>2^32\<close>.  The two agree whenever every accepted choice was in range and, while
  fewer than \<open>2^32\<close> bets have been accepted on the market, only then.  By
  \<open>reachable_iff_trace\<close> the states at the end of a trace are exactly the reachable states.
\<close>

theorem counts_sum_in_range_bets:
  assumes "s = foldl step init_state txs" and "predictionId < getPredictionCount s"
  shows "counts_sum (predictions s ! predictionId) =
           of_nat (length (filter (in_range (unat (optionCount (predictions s ! predictionId))))
                     (accepted_bets predictionId init_state txs))) \<and>
         plain (totalBets (predictions s ! predictionId)) =
           of_nat (length (accepted_bets predictionId init_state txs)) \<and>
         ((\<forall>b \<in> set (accepted_bets predictionId init_state txs).
              in_range (unat (optionCount (predictions s ! predictionId))) b) \<longrightarrow>
          counts_sum (predictions s ! predictionId) =
            plain (totalBets (predictions s ! predictionId))) \<and>
         (length (accepted_bets predictionId init_state txs) < 2 ^ 32 \<longrightarrow>
          (counts_sum (predictions s ! predictionId) =
             plain (totalBets (predictions s ! predictionId)) \<longleftrightarrow>
           (\<forall>b \<in> set (accepted_bets predictionId init_state txs).
              in_range (unat (optionCount (predictions s ! predictionId))) b)))"
proof -
  let ?L = "accepted_bets predictionId init_state txs"
  let ?Q = "in_range (unat (optionCount (predictions s ! predictionId)))"
  have pid: "predictionId < length (predictions (foldl step init_state txs))"
    using assms by (simp add: getPredictionCount_def)
  have "length (predictions init_state) \<le> predictionId"
    by (simp add: init_state_def)
  from ledger_fresh[OF wf_init this pid]
  have sum: "counts_sum (predictions s ! predictionId) = of_nat (length (filter ?Q ?L))"
    and tb: "plain (totalBets (predictions s ! predictionId)) = of_nat (length ?L)"
    unfolding assms(1) by simp_all
  have all: "counts_sum (predictions s ! predictionId) =
      plain (totalBets (predictions s ! predictionId))" if "\<forall>b \<in> set ?L. ?Q b"
    using that unfolding sum tb by (simp add: filter_id_conv[THEN iffD2])
  have iff: "counts_sum (predictions s ! predictionId) =
      plain (totalBets (predictions s ! predictionId)) \<longleftrightarrow> (\<forall>b \<in> set ?L. ?Q b)"
    if "length ?L < 2 ^ 32"
    unfolding sum tb using that by (rule of_nat_filter_eq)
  show ?thesis
    using sum tb all iff by blast
qed

theorem counts_sum_in_range_bets_witness:
  "both_bet = foldl step init_state (market_trace @ [PlaceBet (ctx bob 20) 0 8 (Attests 1)]) \<and>
   accepted_bets 0 init_state (market_trace @ [PlaceBet (ctx bob 20) 0 8 (Attests 1)]) =
     [(0, 10), (1, 20)] \<and>
   counts_sum (predictions both_bet ! 0) = 2 \<and>
   plain (totalBets (predictions both_bet ! 0)) = 2 \<and>
   stray_bet = foldl step init_state (market_trace @ [PlaceBet (ctx bob 20) 0 8 (Attests 2)]) \<and>
   accepted_bets 0 init_state (market_trace @ [PlaceBet (ctx bob 20) 0 8 (Attests 2)]) =
     [(0, 10), (2, 20)] \<and>
   counts_sum (predictions stray_bet ! 0) = 1"
proof -
  let ?good = "market_trace @ [PlaceBet (ctx bob 20) 0 8 (Attests 1)]"
  let ?stray = "market_trace @ [PlaceBet (ctx bob 20) 0 8 (Attests 2)]"
  have s1: "both_bet = foldl step init_state ?good"
    by (simp add: market_trace_state both_bet_def)
  have s2: "stray_bet = foldl step init_state ?stray"
    by (simp add: market_trace_state stray_bet_def)
  have l1: "accepted_bets 0 init_state ?good = [(0, 10), (1, 20)]"
    by (simp add: accepted_bets_append market_trace_bets market_trace_state bob_bets
        del: bet_of.simps)
  have l2: "accepted_bets 0 init_state ?stray = [(0, 10), (2, 20)]"
    by (simp add: accepted_bets_append market_trace_bets market_trace_state bob_bets
        del: bet_of.simps)
  have n1: "0 < getPredictionCount both_bet"
    by (simp add: getPredictionCount_def both_bet_predictions)
  have n2: "0 < getPredictionCount stray_bet"
    by (simp add: getPredictionCount_def stray_bet_predictions)
  have k1: "unat (optionCount (predictions both_bet ! 0)) = 2"
    by (simp add: both_bet_predictions fresh_market_def)
  have k2: "unat (optionCount (predictions stray_bet ! 0)) = 2"
    by (simp add: stray_bet_predictions fresh_market_def)
  from counts_sum_in_range_bets [OF s1 n1]
  have g: "counts_sum (predictions both_bet ! 0) = 2 \<and>
      plain (totalBets (predictions both_bet ! 0)) = 2"
    by (simp add: l1 k1 in_range_def)
  from counts_sum_in_range_bets [OF s2 n2]
  have b: "counts_sum (predictions stray_bet ! 0) = 1"
    by (simp add: l2 k2 in_range_def)
  from s1 s2 l1 l2 g b show ?thesis by blast
qed

subsection \<open>The oblivious counter update\<close>

text \<open>
  C2.  An accepted \<^verbatim>\<open>placeBet\<close> updates the counters by a loop over every option index
  \<open>i\<close> below \<^verbatim>\<open>optionCount\<close>: the log gains, for each \<open>i\<close>, the operations \<open>slot_ops\<close>
  (encrypt \<open>i\<close>, compare the choice with it, select between the encrypted 1 and 0, add the
  selection into slot \<open>i\<close>, grant the new counter), slot \<open>i\<close> receives a fresh handle and
  its plaintext grows by 1 exactly when the choice is \<open>i\<close>.  The whole sequence of
  operations \<open>bet_ops\<close> names handles only.  Running the same call with any other secret
  choice \<open>c'\<close> is accepted as well and ends in a state with the same substrate (log and
  handle counter), the same events and the same handles in every prediction and bet: only
  plaintexts behind the handles differ.
\<close>

theorem placeBet_oblivious:
  assumes "reachable s" and "placeBet e predictionId h (Attests c) s = Inr s1"
  shows "(\<forall>i < unat (optionCount (predictions s ! predictionId)).
            plain (optionCounts (predictions s1 ! predictionId) ! i) =
              plain (optionCounts (predictions s ! predictionId) ! i) +
              (if c = of_nat i then 1 else 0) \<and>
            hid (optionCounts (predictions s1 ! predictionId) ! i) =
              Computed (nextHandle (substrate s) + 6 + 4 * i + 3) \<and>
            set (slot_ops (Input h) (Computed (nextHandle (substrate s) + 4))
                  (Computed (nextHandle (substrate s) + 5)) (msg_sender e)
                  (nextHandle (substrate s) + 6 + 4 * i) i
                  (hid (optionCounts (predictions s ! predictionId) ! i)))
              \<subseteq> set (oplog (substrate s1))) \<and>
         oplog (substrate s1) =
           oplog (substrate s) @
           bet_ops (msg_sender e) (msg_value e) h (nextHandle (substrate s))
             (predictions s ! predictionId) \<and>
         (\<forall>c'. \<exists>s2. placeBet e predictionId h (Attests c') s = Inr s2 \<and>
                 substrate s2 = substrate s1 \<and> events s2 = events s1 \<and>
                 map prediction_shape (predictions s2) = map prediction_shape (predictions s1) \<and>
                 (\<forall>q a. bet_shape (bets s2 q a) = bet_shape (bets s1 q a)))"
proof -
  let ?p = "predictions s ! predictionId"
  let ?n = "nextHandle (substrate s)"
  have wf: "wf_state s" using assms(1) by (rule reachable_wf)
  from placeBet_Inr[OF wf assms(2)]
  have pid: "predictionId < length (predictions s)"
    and v: "0 < msg_value e" "msg_value e \<le> 2 ^ 64 - 1"
    and fresh: "\<not> exists (bets s predictionId (msg_sender e))"
    and s1: "s1 = bet_state e predictionId h c s"
    by auto
  have wfp: "wf_prediction ?p" using wf pid by (rule wf_nth)
  then have k4: "unat (optionCount ?p) \<le> 4" by (simp add: wf_prediction_def)
  have p1: "predictions s1 ! predictionId = bet_prediction c (msg_value e) ?n ?p"
    using pid by (simp add: s1 bet_state_def Let_def)
  have log: "oplog (substrate s1) = oplog (substrate s) @ bet_ops (msg_sender e) (msg_value e) h ?n ?p"
    by (simp add: s1 bet_state_def Let_def)
  have slot: "plain (optionCounts (predictions s1 ! predictionId) ! i) =
              plain (optionCounts ?p ! i) + (if c = of_nat i then 1 else 0) \<and>
            hid (optionCounts (predictions s1 ! predictionId) ! i) = Computed (?n + 6 + 4 * i + 3) \<and>
            set (slot_ops (Input h) (Computed (?n + 4)) (Computed (?n + 5)) (msg_sender e)
                  (?n + 6 + 4 * i) i (hid (optionCounts ?p ! i)))
              \<subseteq> set (oplog (substrate s1))"
    if i: "i < unat (optionCount ?p)" for i
  proof -
    have i4: "i < 4" using i k4 by simp
    have "optionCounts (predictions s1 ! predictionId) ! i =
        Enc (Computed (?n + 6 + 4 * i + 3))
          (plain (optionCounts ?p ! i) + (if c = of_nat i then 1 else 0))"
      unfolding p1 using i i4 by (simp add: bet_prediction_def)
    moreover have "set (slot_ops (Input h) (Computed (?n + 4)) (Computed (?n + 5)) (msg_sender e)
                  (?n + 6 + 4 * i) i (hid (optionCounts ?p ! i)))
              \<subseteq> set (oplog (substrate s1))"
      unfolding log bet_ops_def using i by auto
    ultimately show ?thesis by simp
  qed
  have other: "\<exists>s2. placeBet e predictionId h (Attests c') s = Inr s2 \<and>
                 substrate s2 = substrate s1 \<and> events s2 = events s1 \<and>
                 map prediction_shape (predictions s2) = map prediction_shape (predictions s1) \<and>
                 (\<forall>q a. bet_shape (bets s2 q a) = bet_shape (bets s1 q a))" for c'
  proof -
    have "placeBet e predictionId h (Attests c') s = Inr (bet_state e predictionId h c' s)"
      using pid v fresh wfp by (rule placeBet_closed)
    then show ?thesis
      unfolding s1 using bet_state_shape[where c = c' and c' = c] by simp
  qed
  show ?thesis
    using slot log other by blast
qed

theorem placeBet_oblivious_witness:
  "reachable market_created \<and>
   placeBet (ctx alice 10) 0 7 (Attests 0) market_created = Inr alice_bet \<and>
   plain (optionCounts (predictions alice_bet ! 0) ! 0) = 1 \<and>
   plain (optionCounts (predictions alice_bet ! 0) ! 1) = 0 \<and>
   hid (optionCounts (predictions alice_bet ! 0) ! 0) = Computed 13 \<and>
   hid (optionCounts (predictions alice_bet ! 0) ! 1) = Computed 17 \<and>
   OpEq (Input 7) (Computed 10) (Computed 11) \<in> set (oplog (substrate alice_bet)) \<and>
   OpSelect (Computed 11) (Computed 8) (Computed 9) (Computed 12) \<in> set (oplog (substrate alice_bet)) \<and>
   OpAdd (Computed 0) (Computed 12) (Computed 13) \<in> set (oplog (substrate alice_bet)) \<and>
   OpEq (Input 7) (Computed 14) (Computed 15) \<in> set (oplog (substrate alice_bet)) \<and>
   OpSelect (Computed 15) (Computed 8) (Computed 9) (Computed 16) \<in> set (oplog (substrate alice_bet)) \<and>
   OpAdd (Computed 1) (Computed 16) (Computed 17) \<in> set (oplog (substrate alice_bet)) \<and>
   (\<exists>s2. placeBet (ctx alice 10) 0 7 (Attests 1) market_created = Inr s2 \<and>
         substrate s2 = substrate alice_bet \<and> events s2 = events alice_bet \<and>
         map prediction_shape (predictions s2) = map prediction_shape (predictions alice_bet))"
proof -
  have ok: "placeBet (ctx alice 10) 0 7 (Attests 0) market_created = Inr alice_bet"
    by (simp add: alice_placeBet alice_bet_closed)
  note inst = placeBet_oblivious [OF reachable_market_created ok,
      unfolded market_created_next market_created_predictions ctx_sel]
  have k: "unat (optionCount ([fresh_market] ! 0)) = 2"
    and h: "hid (optionCounts ([fresh_market] ! 0) ! 0) = Computed 0"
      "hid (optionCounts ([fresh_market] ! 0) ! 1) = Computed 1"
    and z: "plain (optionCounts ([fresh_market] ! 0) ! 0) = 0"
      "plain (optionCounts ([fresh_market] ! 0) ! 1) = 0"
    by (simp_all add: fresh_market_def)
  from inst have slots: "\<forall>i<2.
       plain (optionCounts (predictions alice_bet ! 0) ! i) =
         plain (optionCounts ([fresh_market] ! 0) ! i) + (if (0 :: 8 word) = of_nat i then 1 else 0) \<and>
       hid (optionCounts (predictions alice_bet ! 0) ! i) = Computed (4 + 6 + 4 * i + 3) \<and>
       set (slot_ops (Input 7) (Computed (4 + 4)) (Computed (4 + 5)) alice (4 + 6 + 4 * i) i
              (hid (optionCounts ([fresh_market] ! 0) ! i)))
         \<subseteq> set (oplog (substrate alice_bet))"
    unfolding k by blast
  from slots[rule_format, of 0] have s0: "plain (optionCounts (predictions alice_bet ! 0) ! 0) = 1 \<and>
       hid (optionCounts (predictions alice_bet ! 0) ! 0) = Computed 13 \<and>
       set (slot_ops (Input 7) (Computed 8) (Computed 9) alice 10 0 (Computed 0))
         \<subseteq> set (oplog (substrate alice_bet))"
    using h z by simp
  from slots[rule_format, of 1] have s1: "plain (optionCounts (predictions alice_bet ! 0) ! 1) = 0 \<and>
       hid (optionCounts (predictions alice_bet ! 0) ! 1) = Computed 17 \<and>
       set (slot_ops (Input 7) (Computed 8) (Computed 9) alice 14 1 (Computed 1))
         \<subseteq> set (oplog (substrate alice_bet))"
    using h z by simp
  from inst have other: "\<exists>s2. placeBet (ctx alice 10) 0 7 (Attests 1) market_created = Inr s2 \<and>
         substrate s2 = substrate alice_bet \<and> events s2 = events alice_bet \<and>
         map prediction_shape (predictions s2) = map prediction_shape (predictions alice_bet)"
    by blast
  from s0 s1 have ops:
    "OpEq (Input 7) (Computed 10) (Computed 11) \<in> set (oplog (substrate alice_bet))"
    "OpSelect (Computed 11) (Computed 8) (Computed 9) (Computed 12) \<in> set (oplog (substrate alice_bet))"
    "OpAdd (Computed 0) (Computed 12) (Computed 13) \<in> set (oplog (substrate alice_bet))"
    "OpEq (Input 7) (Computed 14) (Computed 15) \<in> set (oplog (substrate alice_bet))"
    "OpSelect (Computed 15) (Computed 8) (Computed 9) (Computed 16) \<in> set (oplog (substrate alice_bet))"
    "OpAdd (Computed 1) (Computed 16) (Computed 17) \<in> set (oplog (substrate alice_bet))"
    by (simp_all add: slot_ops_def)
  from reachable_market_created ok s0 s1 ops other show ?thesis by blast
qed

subsection \<open>Preconditions of placeBet\<close>

text \<open>
  C3.  \<^verbatim>\<open>placeBet\<close> checks its preconditions in order: an id at or above the prediction
  count fails with \<^verbatim>\<open>InvalidPrediction\<close>; otherwise a stake \<open>v\<close> outside \<open>0 < v \<le> 2^64 - 1\<close>
  fails with \<^verbatim>\<open>InvalidBetAmount\<close>; otherwise an existing bet of the caller fails with
  \<^verbatim>\<open>BetAlreadyPlaced\<close>.  When all three pass, the only failure left is a rejected input
  proof, and a valid proof leads to the state \<open>bet_state\<close>.  A failed call leaves the state
  unchanged.
\<close>

theorem placeBet_preconditions:
  assumes "reachable s"
  shows "(getPredictionCount s \<le> predictionId \<longrightarrow>
            placeBet e predictionId h ipf s = Inl InvalidPrediction) \<and>
         (predictionId < getPredictionCount s \<and> \<not> (0 < msg_value e \<and> msg_value e \<le> 2 ^ 64 - 1) \<longrightarrow>
            placeBet e predictionId h ipf s = Inl InvalidBetAmount) \<and>
         (predictionId < getPredictionCount s \<and> 0 < msg_value e \<and> msg_value e \<le> 2 ^ 64 - 1 \<and>
          exists (bets s predictionId (msg_sender e)) \<longrightarrow>
            placeBet e predictionId h ipf s = Inl BetAlreadyPlaced) \<and>
         (predictionId < getPredictionCount s \<and> 0 < msg_value e \<and> msg_value e \<le> 2 ^ 64 - 1 \<and>
          \<not> exists (bets s predictionId (msg_sender e)) \<longrightarrow>
            (case ipf of
               Rejected \<Rightarrow> placeBet e predictionId h ipf s = Inl ProofRejected
             | Attests c \<Rightarrow> placeBet e predictionId h ipf s = Inr (bet_state e predictionId h c s))) \<and>
         (\<forall>err. placeBet e predictionId h ipf s = Inl err \<longrightarrow>
            step s (PlaceBet e predictionId h ipf) = s)"
proof -
  have a: "placeBet e predictionId h ipf s = Inl InvalidPrediction"
    if "getPredictionCount s \<le> predictionId"
    using that by (simp add: placeBet_def getPredictionCount_def)
  have b: "placeBet e predictionId h ipf s = Inl InvalidBetAmount"
    if "predictionId < getPredictionCount s" "\<not> (0 < msg_value e \<and> msg_value e \<le> 2 ^ 64 - 1)"
    using that by (auto simp: placeBet_def getPredictionCount_def)
  have c: "placeBet e predictionId h ipf s = Inl BetAlreadyPlaced"
    if "predictionId < getPredictionCount s" "0 < msg_value e" "msg_value e \<le> 2 ^ 64 - 1"
      "exists (bets s predictionId (msg_sender e))"
    using that by (auto simp: placeBet_def getPredictionCount_def)
  have d: "case ipf of
               Rejected \<Rightarrow> placeBet e predictionId h ipf s = Inl ProofRejected
             | Attests c \<Rightarrow> placeBet e predictionId h ipf s = Inr (bet_state e predictionId h c s)"
    if pid: "predictionId < getPredictionCount s" and v: "0 < msg_value e" "msg_value e \<le> 2 ^ 64 - 1"
      and fresh: "\<not> exists (bets s predictionId (msg_sender e))"
  proof (cases ipf)
    case Rejected
    then show ?thesis
      using pid v fresh by (simp add: placeBet_def getPredictionCount_def FHE_fromExternal_def)
  next
    case (Attests c)
    have pid': "predictionId < length (predictions s)"
      using pid by (simp add: getPredictionCount_def)
    have "wf_prediction (predictions s ! predictionId)"
      using reachable_wf[OF assms] pid' by (rule wf_nth)
    from placeBet_closed[OF pid' v fresh this, of h c] Attests show ?thesis by simp
  qed
  have e: "step s (PlaceBet e predictionId h ipf) = s"
    if "placeBet e predictionId h ipf s = Inl err" for err
    using that by (simp add: step_def)
  show ?thesis
    using a b c d e by blast
qed

theorem placeBet_preconditions_witness:
  "reachable alice_bet \<and>
   placeBet (ctx bob 20) 1 8 (Attests 1) alice_bet = Inl InvalidPrediction \<and>
   placeBet (ctx bob 0) 0 8 (Attests 1) alice_bet = Inl InvalidBetAmount \<and>
   placeBet (ctx bob (2 ^ 64)) 0 8 (Attests 1) alice_bet = Inl InvalidBetAmount \<and>
   placeBet (ctx alice 20) 0 8 (Attests 1) alice_bet = Inl BetAlreadyPlaced \<and>
   placeBet (ctx bob 20) 0 8 Rejected alice_bet = Inl ProofRejected \<and>
   placeBet (ctx bob (2 ^ 64 - 1)) 0 8 (Attests 1) alice_bet =
     Inr (bet_state (ctx bob (2 ^ 64 - 1)) 0 8 1 alice_bet) \<and>
   step alice_bet (PlaceBet (ctx alice 20) 0 8 (Attests 1)) = alice_bet"
proof -
  have n: "getPredictionCount alice_bet = 1"
    by (simp add: getPredictionCount_def alice_bet_predictions)
  have ctx: "\<And>a v. msg_sender (ctx a v) = a" "\<And>a v. msg_value (ctx a v) = v"
    by (simp_all add: ctx_def)
  have ex: "exists (bets alice_bet 0 alice)" "\<not> exists (bets alice_bet 0 bob)"
    by (simp_all add: alice_bet_bets empty_bet_def)
  from placeBet_preconditions [OF reachable_alice_bet, of 1 "ctx bob 20" 8 "Attests 1"] n
  have c1: "placeBet (ctx bob 20) 1 8 (Attests 1) alice_bet = Inl InvalidPrediction" by simp
  from placeBet_preconditions [OF reachable_alice_bet, of 0 "ctx bob 0" 8 "Attests 1"] n
  have c2: "placeBet (ctx bob 0) 0 8 (Attests 1) alice_bet = Inl InvalidBetAmount"
    by (simp add: ctx)
  from placeBet_preconditions [OF reachable_alice_bet, of 0 "ctx bob (2 ^ 64)" 8 "Attests 1"] n
  have c3: "placeBet (ctx bob (2 ^ 64)) 0 8 (Attests 1) alice_bet = Inl InvalidBetAmount"
    by (simp add: ctx)
  from placeBet_preconditions [OF reachable_alice_bet, of 0 "ctx alice 20" 8 "Attests 1"] n ex
  have c4: "placeBet (ctx alice 20) 0 8 (Attests 1) alice_bet = Inl BetAlreadyPlaced"
    and c7: "step alice_bet (PlaceBet (ctx alice 20) 0 8 (Attests 1)) = alice_bet"
    by (simp_all add: ctx)
  from placeBet_preconditions [OF reachable_alice_bet, of 0 "ctx bob 20" 8 Rejected] n ex
  have c5: "placeBet (ctx bob 20) 0 8 Rejected alice_bet = Inl ProofRejected"
    by (simp add: ctx)
  from placeBet_preconditions [OF reachable_alice_bet, of 0 "ctx bob (2 ^ 64 - 1)" 8 "Attests 1"] n ex
  have c6: "placeBet (ctx bob (2 ^ 64 - 1)) 0 8 (Attests 1) alice_bet =
     Inr (bet_state (ctx bob (2 ^ 64 - 1)) 0 8 1 alice_bet)"
    by (simp add: ctx)
  from reachable_alice_bet c1 c2 c3 c4 c5 c6 c7 show ?thesis by blast
qed

subsection \<open>Totals after a sequence of bets\<close>

text \<open>
  C4 as stated fails.  The claim is that \<^verbatim>\<open>totalBets\<close> decrypts to exactly the number \<open>N\<close> of
  accepted bets, with a wraparound only for \<^verbatim>\<open>totalStaked\<close> at \<open>2^64\<close>.  On the trace
  \<open>crowd_trace\<close> the market receives \<open>2^32\<close> accepted bets from \<open>2^32\<close> distinct accounts, and
  \<^verbatim>\<open>totalBets\<close>, a 32-bit counter, decrypts to 0.
\<close>

theorem totalBets_wraps_around:
  "reachable crowded \<and>
   0 < getPredictionCount crowded \<and>
   length (accepted_bets 0 init_state crowd_trace) = 2 ^ 32 \<and>
   unat (plain (totalBets (predictions crowded ! 0))) = 0"
proof -
  have wf: "wf_state market_created"
    using reachable_market_created by (rule reachable_wf)
  have pid: "0 < length (predictions market_created)"
    by (simp add: market_created_predictions)
  have n: "0 < getPredictionCount crowded"
    unfolding crowded_closed getPredictionCount_def
    using length_predictions_foldl[OF wf, of "crowd (2 ^ 32)"] pid by auto
  have len: "length (accepted_bets 0 market_created (crowd (2 ^ 32))) = 2 ^ 32"
    using crowd_bets[of "2 ^ 32"] by simp
  have "plain (totalBets (predictions crowded ! 0)) =
      plain (totalBets (predictions market_created ! 0)) + of_nat (2 ^ 32)"
    unfolding crowded_closed using ledger_from[OF wf pid, of "crowd (2 ^ 32)"] len by simp
  then have "plain (totalBets (predictions crowded ! 0)) = 0"
    by (simp add: market_created_predictions fresh_market_def)
  with reachable_crowded n crowd_trace_bets show ?thesis by simp
qed

text \<open>
  C4, amended.  For every trace from the initial state and every market that exists at its
  end: with \<open>N\<close> the number of accepted bets on the market and \<open>a\<^sub>1, \<dots>, a\<^sub>N\<close> their attached
  stakes (the list \<open>accepted_bets\<close>), \<^verbatim>\<open>totalBets\<close> decrypts to \<open>N mod 2^32\<close> and
  \<^verbatim>\<open>totalStaked\<close> to \<open>(a\<^sub>1 + \<dots> + a\<^sub>N) mod 2^64\<close>: exactly \<open>N\<close> while \<open>N < 2^32\<close>, and exactly
  the sum while it is below \<open>2^64\<close>.
\<close>

theorem totals_count_accepted_bets:
  assumes "s = foldl step init_state txs" and "predictionId < getPredictionCount s"
  shows "plain (totalBets (predictions s ! predictionId)) =
           of_nat (length (accepted_bets predictionId init_state txs)) \<and>
         plain (totalStaked (predictions s ! predictionId)) =
           of_nat (sum_list (map snd (accepted_bets predictionId init_state txs))) \<and>
         unat (plain (totalBets (predictions s ! predictionId))) =
           length (accepted_bets predictionId init_state txs) mod 2 ^ 32 \<and>
         unat (plain (totalStaked (predictions s ! predictionId))) =
           sum_list (map snd (accepted_bets predictionId init_state txs)) mod 2 ^ 64 \<and>
         (length (accepted_bets predictionId init_state txs) < 2 ^ 32 \<longrightarrow>
          unat (plain (totalBets (predictions s ! predictionId))) =
            length (accepted_bets predictionId init_state txs)) \<and>
         (sum_list (map snd (accepted_bets predictionId init_state txs)) < 2 ^ 64 \<longrightarrow>
          unat (plain (totalStaked (predictions s ! predictionId))) =
            sum_list (map snd (accepted_bets predictionId init_state txs)))"
proof -
  have pid: "predictionId < length (predictions (foldl step init_state txs))"
    using assms by (simp add: getPredictionCount_def)
  have "length (predictions init_state) \<le> predictionId"
    by (simp add: init_state_def)
  from ledger_fresh[OF wf_init this pid] show ?thesis
    unfolding assms(1) by (simp add: unat_of_nat)
qed

theorem totals_count_accepted_bets_witness:
  "both_bet = foldl step init_state (market_trace @ [PlaceBet (ctx bob 20) 0 8 (Attests 1)]) \<and>
   accepted_bets 0 init_state (market_trace @ [PlaceBet (ctx bob 20) 0 8 (Attests 1)]) =
     [(0, 10), (1, 20)] \<and>
   unat (plain (totalBets (predictions both_bet ! 0))) = 2 \<and>
   unat (plain (totalStaked (predictions both_bet ! 0))) = 30"
proof -
  let ?good = "market_trace @ [PlaceBet (ctx bob 20) 0 8 (Attests 1)]"
  have s1: "both_bet = foldl step init_state ?good"
    by (simp add: market_trace_state both_bet_def)
  have l1: "accepted_bets 0 init_state ?good = [(0, 10), (1, 20)]"
    by (simp add: accepted_bets_append market_trace_bets market_trace_state bob_bets
        del: bet_of.simps)
  have n1: "0 < getPredictionCount both_bet"
    by (simp add: getPredictionCount_def both_bet_predictions)
  from totals_count_accepted_bets [OF s1 n1]
  have "unat (plain (totalBets (predictions both_bet ! 0))) = 2 \<and>
      unat (plain (totalStaked (predictions both_bet ! 0))) = 30"
    by (simp add: l1)
  with s1 l1 show ?thesis by blast
qed

subsection \<open>Monotonicity of the totals\<close>

text \<open>
  C5 as stated fails.  The claim is that \<^verbatim>\<open>totalStaked\<close> never decreases, with no bound on
  the bets.  After Alice stakes \<open>2^64 - 1\<close> on the market of the scenario, Bob's accepted
  bet of 1 takes \<^verbatim>\<open>totalStaked\<close> from \<open>2^64 - 1\<close> to 0.
\<close>

theorem totalStaked_wraps_around:
  "reachable max_bet \<and>
   wrapped_bet = step max_bet (PlaceBet (ctx bob 1) 0 8 (Attests 1)) \<and>
   unat (plain (totalStaked (predictions max_bet ! 0))) = 2 ^ 64 - 1 \<and>
   unat (plain (totalStaked (predictions wrapped_bet ! 0))) = 0"
proof -
  have "plain (totalStaked (predictions wrapped_bet ! 0)) = 0"
    by (simp add: wrapped_bet_closed bet_state_def bet_prediction_def max_bet_total ctx_sel Let_def)
  then show ?thesis
    using reachable_max_bet by (simp add: max_bet_total wrapped_bet_def)
qed

text \<open>
  C5, amended.  In a reachable state, a transaction changes the totals of an existing
  market only if it is an accepted bet on that market (\<open>bet_of\<close> is then the one-element
  list of its choice and stake, and empty otherwise): \<^verbatim>\<open>totalBets\<close> grows by the number of
  such bets, at most 1, modulo \<open>2^32\<close>, and \<^verbatim>\<open>totalStaked\<close> by the stake modulo \<open>2^64\<close>.
  Whenever the new value stays below the width of the counter, the plaintext after the
  transaction is the plaintext before plus the increment, hence not smaller.
\<close>

theorem totals_change_only_by_bets:
  assumes "reachable s" and "predictionId < getPredictionCount s"
  shows "length (bet_of predictionId s t) \<le> 1 \<and>
         plain (totalBets (predictions (step s t) ! predictionId)) =
           plain (totalBets (predictions s ! predictionId)) +
           of_nat (length (bet_of predictionId s t)) \<and>
         plain (totalStaked (predictions (step s t) ! predictionId)) =
           plain (totalStaked (predictions s ! predictionId)) +
           of_nat (sum_list (map snd (bet_of predictionId s t))) \<and>
         (unat (plain (totalBets (predictions s ! predictionId))) +
            length (bet_of predictionId s t) < 2 ^ 32 \<longrightarrow>
          unat (plain (totalBets (predictions (step s t) ! predictionId))) =
            unat (plain (totalBets (predictions s ! predictionId))) +
            length (bet_of predictionId s t)) \<and>
         (unat (plain (totalStaked (predictions s ! predictionId))) +
            sum_list (map snd (bet_of predictionId s t)) < 2 ^ 64 \<longrightarrow>
          unat (plain (totalStaked (predictions (step s t) ! predictionId))) =
            unat (plain (totalStaked (predictions s ! predictionId))) +
            sum_list (map snd (bet_of predictionId s t)))"
proof -
  have pid: "predictionId < length (predictions s)"
    using assms(2) by (simp add: getPredictionCount_def)
  note one = ledger_step[OF reachable_wf[OF assms(1)] pid, of t]
  have tb: "unat (plain (totalBets (predictions (step s t) ! predictionId))) =
            unat (plain (totalBets (predictions s ! predictionId))) +
            length (bet_of predictionId s t)"
    if "unat (plain (totalBets (predictions s ! predictionId))) +
            length (bet_of predictionId s t) < 2 ^ 32"
    using one unat_add_of_nat[of "plain (totalBets (predictions s ! predictionId))"
        "length (bet_of predictionId s t)"] that
    by simp
  have ts: "unat (plain (totalStaked (predictions (step s t) ! predictionId))) =
            unat (plain (totalStaked (predictions s ! predictionId))) +
            sum_list (map snd (bet_of predictionId s t))"
    if "unat (plain (totalStaked (predictions s ! predictionId))) +
            sum_list (map snd (bet_of predictionId s t)) < 2 ^ 64"
    using one unat_add_of_nat[of "plain (totalStaked (predictions s ! predictionId))"
        "sum_list (map snd (bet_of predictionId s t))"] that
    by simp
  show ?thesis
    using one tb ts bet_of_length[of predictionId s t] by blast
qed

theorem totals_change_only_by_bets_witness:
  "reachable alice_bet \<and>
   bet_of 0 alice_bet (PlaceBet (ctx bob 20) 0 8 (Attests 1)) = [(1, 20)] \<and>
   unat (plain (totalBets (predictions alice_bet ! 0))) = 1 \<and>
   unat (plain (totalBets (predictions both_bet ! 0))) = 2 \<and>
   unat (plain (totalStaked (predictions alice_bet ! 0))) = 10 \<and>
   unat (plain (totalStaked (predictions both_bet ! 0))) = 30"
proof -
  have n: "0 < getPredictionCount alice_bet"
    by (simp add: getPredictionCount_def alice_bet_predictions)
  have old: "unat (plain (totalBets (predictions alice_bet ! 0))) = 1"
    "unat (plain (totalStaked (predictions alice_bet ! 0))) = 10"
    by (simp_all add: alice_bet_predictions)
  note inst = totals_change_only_by_bets [OF reachable_alice_bet n,
      of "PlaceBet (ctx bob 20) 0 8 (Attests 1)", unfolded bob_bets both_bet_def[symmetric] old]
  from inst have "1 + length [(1 :: 8 word, 20 :: nat)] < 2 ^ 32 \<longrightarrow>
      unat (plain (totalBets (predictions both_bet ! 0))) = 1 + length [(1 :: 8 word, 20 :: nat)]"
    by blast
  then have tb: "unat (plain (totalBets (predictions both_bet ! 0))) = 2" by simp
  from inst have "10 + sum_list (map snd [(1 :: 8 word, 20 :: nat)]) < 2 ^ 64 \<longrightarrow>
      unat (plain (totalStaked (predictions both_bet ! 0))) =
        10 + sum_list (map snd [(1 :: 8 word, 20 :: nat)])"
    by blast
  then have ts: "unat (plain (totalStaked (predictions both_bet ! 0))) = 30" by simp
  from reachable_alice_bet bob_bets[of 1] old tb ts show ?thesis by blast
qed

subsection \<open>Unused option slots\<close>

text \<open>
  C6.  In every reachable state a market has between 2 and 4 options and four counter
  slots; the slots at indices \<^verbatim>\<open>optionCount..3\<close> still hold the value they had at creation,
  the never-assigned zero handle, whose plaintext-equivalent is 0.  \<^verbatim>\<open>getOptionCounts\<close>
  returns exactly the first \<^verbatim>\<open>optionCount\<close> slots, and no call into the substrate
  (operation or grant) ever names the zero handle.
\<close>

theorem unused_slots_stay_uninit:
  assumes "reachable s" and "predictionId < getPredictionCount s"
  shows "2 \<le> unat (optionCount (predictions s ! predictionId)) \<and>
         unat (optionCount (predictions s ! predictionId)) \<le> 4 \<and>
         length (optionCounts (predictions s ! predictionId)) = 4 \<and>
         (\<forall>i. unat (optionCount (predictions s ! predictionId)) \<le> i \<and> i < 4 \<longrightarrow>
              optionCounts (predictions s ! predictionId) ! i = uninit) \<and>
         getOptionCounts predictionId s =
           Inr (take (unat (optionCount (predictions s ! predictionId)))
                  (optionCounts (predictions s ! predictionId))) \<and>
         (\<exists>counts. getOptionCounts predictionId s = Inr counts \<and>
                   length counts = unat (optionCount (predictions s ! predictionId))) \<and>
         Uninit \<notin> handles_used (substrate s)"
proof -
  let ?p = "predictions s ! predictionId"
  let ?k = "unat (optionCount ?p)"
  have pid: "predictionId < length (predictions s)"
    using assms(2) by (simp add: getPredictionCount_def)
  have wfp: "wf_prediction ?p"
    using reachable_wf[OF assms(1)] pid by (rule wf_nth)
  then have k: "2 \<le> ?k" "?k \<le> 4" and len: "length (optionCounts ?p) = 4"
    and rest: "drop ?k (optionCounts ?p) = replicate (4 - ?k) uninit"
    by (simp_all add: wf_prediction_def)
  have slots: "optionCounts ?p ! i = uninit" if "?k \<le> i" "i < 4" for i
  proof -
    have "optionCounts ?p ! i = drop ?k (optionCounts ?p) ! (i - ?k)"
      using that len by simp
    also have "\<dots> = uninit"
      unfolding rest using that by simp
    finally show ?thesis .
  qed
  have get: "getOptionCounts predictionId s = Inr (take ?k (optionCounts ?p))"
    using pid wfp by (rule getOptionCounts_closed)
  have unused: "Uninit \<notin> handles_used (substrate s)"
    using reachable_init_inv[OF assms(1)] by (simp add: init_inv_def)
  show ?thesis
    using k len slots get unused by simp
qed

theorem unused_slots_stay_uninit_witness:
  "reachable alice_bet \<and>
   getOptionCounts 0 alice_bet = Inr [Enc (Computed 13) 1, Enc (Computed 17) 0] \<and>
   optionCounts (predictions alice_bet ! 0) ! 2 = uninit \<and>
   optionCounts (predictions alice_bet ! 0) ! 3 = uninit \<and>
   Uninit \<notin> handles_used (substrate alice_bet)"
proof -
  have n: "0 < getPredictionCount alice_bet"
    by (simp add: getPredictionCount_def alice_bet_predictions)
  from unused_slots_stay_uninit [OF reachable_alice_bet n] reachable_alice_bet
  show ?thesis
    by (simp add: alice_bet_predictions fresh_market_def)
qed

subsection \<open>Creating a prediction\<close>

text \<open>
  C7.  \<^verbatim>\<open>createPrediction\<close> fails with \<^verbatim>\<open>InvalidOptions\<close> if and only if the number of
  options is below 2 or above 4, and has no other failure.  With 2, 3 or 4 options it
  succeeds, appends exactly one prediction, returns the prior prediction count as the new
  id, and \<^verbatim>\<open>getPredictionCount\<close> grows by exactly 1.
\<close>

theorem createPrediction_options_check:
  "(createPrediction e ttl opts s = Inl InvalidOptions \<longleftrightarrow> length opts < 2 \<or> 4 < length opts) \<and>
   (\<forall>err. createPrediction e ttl opts s = Inl err \<longrightarrow> err = InvalidOptions) \<and>
   (2 \<le> length opts \<and> length opts \<le> 4 \<longrightarrow>
      (\<exists>s' p. createPrediction e ttl opts s = Inr (s', getPredictionCount s) \<and>
              predictions s' = predictions s @ [p] \<and>
              getPredictionCount s' = getPredictionCount s + 1))"
proof (cases "2 \<le> length opts \<and> length opts \<le> 4")
  case True
  then have m: "2 \<le> length opts" "length opts \<le> 4" by simp_all
  have "createPrediction e ttl opts s = Inr (created_state e ttl opts s, length (predictions s))"
    using m by (rule createPrediction_closed)
  moreover have "predictions (created_state e ttl opts s) =
      predictions s @ [created_prediction e ttl opts (nextHandle (substrate s))]"
    by (simp add: created_state_def Let_def)
  ultimately show ?thesis
    using m by (simp add: getPredictionCount_def)
next
  case False
  then have "createPrediction e ttl opts s = Inl InvalidOptions"
    by (auto simp: createPrediction_def)
  with False show ?thesis by auto
qed

theorem createPrediction_options_check_witness:
  "createPrediction (ctx alice 0) ''A or B'' [''A'', ''B''] init_state = Inr (market_created, 0) \<and>
   getPredictionCount init_state = 0 \<and>
   getPredictionCount market_created = 1 \<and>
   createPrediction (ctx alice 0) ''A'' [''A''] init_state = Inl InvalidOptions \<and>
   createPrediction (ctx alice 0) ''A to E'' [''A'', ''B'', ''C'', ''D'', ''E''] init_state = Inl InvalidOptions"
  using createPrediction_options_check [of "ctx alice 0" "''A or B''" "[''A'', ''B'']" init_state]
    createPrediction_options_check [of "ctx alice 0" "''A''" "[''A'']" init_state]
    createPrediction_options_check [of "ctx alice 0" "''A to E''" "[''A'', ''B'', ''C'', ''D'', ''E'']" init_state]
  by (auto simp: market_created_def step_def getPredictionCount_def init_state_def ctx_def)

subsection \<open>Granting access\<close>

text \<open>
  C8.  In a reachable state \<^verbatim>\<open>grantAccess\<close> fails if and only if the id is at or above
  the prediction count, and then with \<^verbatim>\<open>InvalidPrediction\<close>.  Otherwise it changes no
  prediction, bet or event: it adds to the grant relation exactly the caller's permission
  on the handles of \<^verbatim>\<open>totalStaked\<close>, \<^verbatim>\<open>totalBets\<close> and the first \<^verbatim>\<open>optionCount\<close> counters,
  and on the caller's own choice and amount handles if and only if the caller's bet
  exists.  A second call succeeds too and leaves predictions, bets, events and the grant
  relation as the first call left them.
\<close>

theorem grantAccess_grants:
  assumes "reachable s"
  shows "(grantAccess e predictionId s = Inl InvalidPrediction \<longleftrightarrow>
            getPredictionCount s \<le> predictionId) \<and>
         (\<forall>err. grantAccess e predictionId s = Inl err \<longrightarrow> err = InvalidPrediction) \<and>
         (predictionId < getPredictionCount s \<longrightarrow>
            (\<exists>s' s''.
               grantAccess e predictionId s = Inr s' \<and>
               predictions s' = predictions s \<and> bets s' = bets s \<and> events s' = events s \<and>
               nextHandle (substrate s') = nextHandle (substrate s) \<and>
               grants (substrate s') =
                 grants (substrate s) \<union>
                 (\<lambda>h. (h, Account (msg_sender e))) `
                   ({hid (totalStaked (predictions s ! predictionId)),
                     hid (totalBets (predictions s ! predictionId))} \<union>
                    hid ` set (take (unat (optionCount (predictions s ! predictionId)))
                                (optionCounts (predictions s ! predictionId))) \<union>
                    (if exists (bets s predictionId (msg_sender e))
                     then {hid (choice (bets s predictionId (msg_sender e))),
                           hid (amount (bets s predictionId (msg_sender e)))}
                     else {})) \<and>
               grantAccess e predictionId s' = Inr s'' \<and>
               predictions s'' = predictions s \<and> bets s'' = bets s \<and> events s'' = events s \<and>
               nextHandle (substrate s'') = nextHandle (substrate s) \<and>
               grants (substrate s'') = grants (substrate s')))"
proof (cases "predictionId < length (predictions s)")
  case False
  then have "grantAccess e predictionId s = Inl InvalidPrediction"
    by (simp add: grantAccess_def)
  with False show ?thesis by (simp add: getPredictionCount_def)
next
  case True
  let ?p = "predictions s ! predictionId"
  let ?b = "bets s predictionId (msg_sender e)"
  let ?s' = "granted_state e predictionId s"
  let ?s'' = "granted_state e predictionId ?s'"
  have wfp: "wf_prediction ?p"
    using reachable_wf[OF assms] True by (rule wf_nth)
  then have k4: "unat (optionCount ?p) \<le> 4" and len: "length (optionCounts ?p) = 4"
    by (simp_all add: wf_prediction_def)
  have first: "grantAccess e predictionId s = Inr ?s'"
    using grantAccess_closed[OF True k4, of e] by (simp add: granted_state_def)
  have same: "predictions ?s' = predictions s" "bets ?s' = bets s" "events ?s' = events s"
    "nextHandle (substrate ?s') = nextHandle (substrate s)"
    by (simp_all add: granted_state_def)
  have second: "grantAccess e predictionId ?s' = Inr ?s''"
    using grantAccess_closed[of predictionId ?s' e] True k4 same
    by (simp add: granted_state_def)
  have same2: "predictions ?s'' = predictions s" "bets ?s'' = bets s" "events ?s'' = events s"
    "nextHandle (substrate ?s'') = nextHandle (substrate s)"
    by (simp_all add: granted_state_def)
  have g1: "grants (substrate ?s') =
      grants (substrate s) \<union> {(h, q). OpAllow h q \<in> set (grant_ops (msg_sender e) ?p ?b)}"
    by (simp add: granted_state_def grants_append)
  have g2: "grants (substrate ?s'') = grants (substrate ?s')"
    by (auto simp: granted_state_def grants_def allowed_def)
  have set_eq: "{(h, q). OpAllow h q \<in> set (grant_ops (msg_sender e) ?p ?b)} =
     (\<lambda>h. (h, Account (msg_sender e))) `
       ({hid (totalStaked ?p), hid (totalBets ?p)} \<union>
        hid ` set (take (unat (optionCount ?p)) (optionCounts ?p)) \<union>
        (if exists ?b then {hid (choice ?b), hid (amount ?b)} else {}))"
    using k4 len by (intro grant_ops_set) simp
  show ?thesis
    using True first second same same2 g1[unfolded set_eq] g2
    by (simp add: getPredictionCount_def)
qed

theorem grantAccess_grants_witness:
  "reachable alice_bet \<and>
   grantAccess (ctx bob 0) 1 alice_bet = Inl InvalidPrediction \<and>
   (\<exists>s'. grantAccess (ctx alice 0) 0 alice_bet = Inr s' \<and>
         predictions s' = predictions alice_bet \<and> bets s' = bets alice_bet \<and>
         allowed (substrate s') (Computed 5) (Account alice) \<and>
         allowed (substrate s') (Computed 7) (Account alice) \<and>
         allowed (substrate s') (Computed 13) (Account alice) \<and>
         allowed (substrate s') (Computed 17) (Account alice) \<and>
         allowed (substrate s') (Input 7) (Account alice) \<and>
         allowed (substrate s') (Computed 4) (Account alice)) \<and>
   (\<exists>s'. grantAccess (ctx bob 0) 0 alice_bet = Inr s' \<and>
         allowed (substrate s') (Computed 5) (Account bob) \<and>
         allowed (substrate s') (Computed 7) (Account bob) \<and>
         allowed (substrate s') (Computed 13) (Account bob) \<and>
         allowed (substrate s') (Computed 17) (Account bob) \<and>
         \<not> allowed (substrate s') (Input 7) (Account bob))"
proof -
  have n: "getPredictionCount alice_bet = 1"
    by (simp add: getPredictionCount_def alice_bet_predictions)
  have who: "msg_sender (ctx alice 0) = alice" "msg_sender (ctx bob 0) = bob"
    by (simp_all add: ctx_def)
  have p: "predictions alice_bet ! 0 =
     fresh_market\<lparr>totalStaked := Enc (Computed 5) 10, totalBets := Enc (Computed 7) 1,
        optionCounts := [Enc (Computed 13) 1, Enc (Computed 17) 0, uninit, uninit]\<rparr>"
    by (simp add: alice_bet_predictions)
  have k: "unat (optionCount fresh_market) = 2"
    by (simp add: fresh_market_def)
  have t: "take 2 [Enc (Computed 13) 1, Enc (Computed 17) 0, uninit, uninit :: euint32] =
      [Enc (Computed 13) 1, Enc (Computed 17) 0]"
    by (simp add: numeral_2_eq_2)
  have ab: "alice \<noteq> bob" by (simp add: alice_def bob_def)
  from grantAccess_grants [OF reachable_alice_bet, of "ctx bob 0" 1] n
  have bad: "grantAccess (ctx bob 0) 1 alice_bet = Inl InvalidPrediction" by simp
  from grantAccess_grants [OF reachable_alice_bet, of "ctx alice 0" 0] n
  have a: "\<exists>s'. grantAccess (ctx alice 0) 0 alice_bet = Inr s' \<and>
         predictions s' = predictions alice_bet \<and> bets s' = bets alice_bet \<and>
         allowed (substrate s') (Computed 5) (Account alice) \<and>
         allowed (substrate s') (Computed 7) (Account alice) \<and>
         allowed (substrate s') (Computed 13) (Account alice) \<and>
         allowed (substrate s') (Computed 17) (Account alice) \<and>
         allowed (substrate s') (Input 7) (Account alice) \<and>
         allowed (substrate s') (Computed 4) (Account alice)"
    by (auto simp: allowed_grants who p k t alice_bet_bets)
  from grantAccess_grants [OF reachable_alice_bet, of "ctx bob 0" 0] n alice_bet_no_input_grant
  have b: "\<exists>s'. grantAccess (ctx bob 0) 0 alice_bet = Inr s' \<and>
         allowed (substrate s') (Computed 5) (Account bob) \<and>
         allowed (substrate s') (Computed 7) (Account bob) \<and>
         allowed (substrate s') (Computed 13) (Account bob) \<and>
         allowed (substrate s') (Computed 17) (Account bob) \<and>
         \<not> allowed (substrate s') (Input 7) (Account bob)"
    by (auto simp: allowed_grants who p k t alice_bet_bets empty_bet_def)
  from reachable_alice_bet bad a b show ?thesis by blast
qed

subsection \<open>Reading a bet\<close>

text \<open>
  C9.  For an existing prediction in a reachable state, \<^verbatim>\<open>getUserBet\<close> returns
  \<open>(False, uninit, uninit)\<close> for a participant with no recorded bet, and \<open>True\<close> with the
  stored choice and amount for a participant with one; a bet is recorded exactly when a
  \<^verbatim>\<open>BetPlaced\<close> event of that participant on that prediction was emitted.  After an
  accepted \<^verbatim>\<open>placeBet\<close>, whatever transactions follow, \<^verbatim>\<open>getUserBet\<close> returns \<open>True\<close> with the
  input handle of the choice and the handle of the encrypted stake recorded by that call.
\<close>

theorem getUserBet_reports_bet:
  assumes "reachable s" and "predictionId < getPredictionCount s"
  shows "(\<not> exists (bets s predictionId user) \<longrightarrow>
            getUserBet predictionId user s = Inr (False, uninit, uninit)) \<and>
         (exists (bets s predictionId user) \<longrightarrow>
            getUserBet predictionId user s =
              Inr (True, choice (bets s predictionId user), amount (bets s predictionId user))) \<and>
         (exists (bets s predictionId user) \<longleftrightarrow>
            (\<exists>amt. BetPlaced predictionId user amt \<in> set (events s))) \<and>
         (\<forall>e h ipf s1 txs.
            msg_sender e = user \<and> placeBet e predictionId h ipf s = Inr s1 \<longrightarrow>
            (\<exists>c. ipf = Attests c \<and>
                 getUserBet predictionId user (foldl step s1 txs) =
                   Inr (True, Enc (Input h) c,
                        Enc (Computed (nextHandle (substrate s))) (of_nat (msg_value e)))))"
proof -
  have pid: "predictionId < length (predictions s)"
    using assms(2) by (simp add: getPredictionCount_def)
  have wf: "wf_state s" using assms(1) by (rule reachable_wf)
  have inv: "bets_inv s" using assms(1) by (rule reachable_bets_inv)
  have none: "getUserBet predictionId user s = Inr (False, uninit, uninit)"
    if "\<not> exists (bets s predictionId user)"
  proof -
    from inv that have "bets s predictionId user = empty_bet" by (simp add: bets_inv_def)
    then show ?thesis using pid by (simp add: getUserBet_def empty_bet_def Let_def)
  qed
  have some: "getUserBet predictionId user s =
      Inr (True, choice (bets s predictionId user), amount (bets s predictionId user))"
    if "exists (bets s predictionId user)"
    using that pid by (simp add: getUserBet_def Let_def)
  have ev: "exists (bets s predictionId user) \<longleftrightarrow>
      (\<exists>amt. BetPlaced predictionId user amt \<in> set (events s))"
    using inv by (simp add: bets_inv_def)
  have later: "\<exists>c. ipf = Attests c \<and>
       getUserBet predictionId user (foldl step s1 txs) =
         Inr (True, Enc (Input h) c,
              Enc (Computed (nextHandle (substrate s))) (of_nat (msg_value e)))"
    if sender: "msg_sender e = user" and ok: "placeBet e predictionId h ipf s = Inr s1"
    for e h ipf s1 txs
  proof -
    from placeBet_Inr[OF wf ok] obtain c where c: "ipf = Attests c"
      and s1: "s1 = bet_state e predictionId h c s" by blast
    have b1: "bets s1 predictionId user =
        \<lparr>choice = Enc (Input h) c,
         amount = Enc (Computed (nextHandle (substrate s))) (of_nat (msg_value e)),
         exists = True\<rparr>"
      using sender by (simp add: s1 bet_state_def Let_def)
    have wf1: "wf_state s1"
      using wf_step[OF wf, of "PlaceBet e predictionId h ipf"] ok by (simp add: step_def)
    have "bets (foldl step s1 txs) predictionId user = bets s1 predictionId user"
      using wf1 b1 by (intro bet_kept) simp_all
    moreover have "predictionId < length (predictions (foldl step s1 txs))"
      using length_predictions_foldl[OF wf1, of txs] pid
      by (simp add: s1 bet_state_def Let_def)
    ultimately show ?thesis
      using c b1 by (simp add: getUserBet_def Let_def)
  qed
  show ?thesis
    using none some ev later by blast
qed

theorem getUserBet_reports_bet_witness:
  "reachable market_created \<and>
   getUserBet 0 alice market_created = Inr (False, uninit, uninit) \<and>
   getUserBet 0 alice both_bet = Inr (True, Enc (Input 7) 0, Enc (Computed 4) 10)"
proof -
  have n: "0 < getPredictionCount market_created"
    by (simp add: getPredictionCount_def market_created_predictions)
  have none: "\<not> exists (bets market_created 0 alice)"
    by (simp add: market_created_bets empty_bet_def)
  have ok: "placeBet (ctx alice 10) 0 7 (Attests 0) market_created = Inr alice_bet"
    by (simp add: alice_placeBet alice_bet_closed)
  have later: "both_bet = foldl step alice_bet [PlaceBet (ctx bob 20) 0 8 (Attests 1)]"
    by (simp add: both_bet_def)
  have who: "msg_sender (ctx alice 10) = alice" and amt: "msg_value (ctx alice 10) = 10"
    by (simp_all add: ctx_def)
  from getUserBet_reports_bet [OF reachable_market_created n, of alice] none ok who
  have "getUserBet 0 alice market_created = Inr (False, uninit, uninit)"
    and "\<exists>c. Attests 0 = Attests c \<and>
           getUserBet 0 alice (foldl step alice_bet [PlaceBet (ctx bob 20) 0 8 (Attests 1)]) =
             Inr (True, Enc (Input 7) c,
                  Enc (Computed (nextHandle (substrate market_created)))
                    (of_nat (msg_value (ctx alice 10))))"
    by blast+
  then show ?thesis
    using reachable_market_created by (simp add: both_bet_def market_created_next amt)
qed

subsection \<open>Read operations on an unknown prediction\<close>

text \<open>
  C10.  Every read operation that takes a prediction id (the metadata and options getters,
  \<^verbatim>\<open>getPredictionTotals\<close>, \<^verbatim>\<open>getOptionCounts\<close> and \<^verbatim>\<open>getUserBet\<close>) fails with
  \<^verbatim>\<open>InvalidPrediction\<close> when the id is greater than or equal to the number of predictions;
  in particular \<^verbatim>\<open>getUserBet\<close> reverts there instead of answering that no bet exists.
\<close>

theorem reads_reject_unknown_prediction:
  assumes "getPredictionCount s \<le> predictionId"
  shows "getPredictionMeta predictionId s = Inl InvalidPrediction \<and>
         getPredictionOptions predictionId s = Inl InvalidPrediction \<and>
         getPredictionTotals predictionId s = Inl InvalidPrediction \<and>
         getOptionCounts predictionId s = Inl InvalidPrediction \<and>
         getUserBet predictionId user s = Inl InvalidPrediction"
  using assms
  by (simp add: getPredictionCount_def getPredictionMeta_def getPredictionOptions_def
      getPredictionTotals_def getOptionCounts_def getUserBet_def)

theorem reads_reject_unknown_prediction_witness:
  "getPredictionCount market_created = 1 \<and>
   getPredictionMeta 1 market_created = Inl InvalidPrediction \<and>
   getPredictionOptions 1 market_created = Inl InvalidPrediction \<and>
   getPredictionTotals 1 market_created = Inl InvalidPrediction \<and>
   getOptionCounts 1 market_created = Inl InvalidPrediction \<and>
   getUserBet 1 alice market_created = Inl InvalidPrediction"
proof -
  have n: "getPredictionCount market_created = 1"
    by (simp add: getPredictionCount_def market_created_def step_def createPrediction_closed
        created_state_def init_state_def ctx_def Let_def)
  then have "getPredictionCount market_created \<le> 1" by simp
  from reads_reject_unknown_prediction [OF this, of alice] n show ?thesis by simp
qed

end
